theory Spec2Isabelle
  imports Main
begin

section \<open>The operating system as seen by lsh\<close>

text \<open>
  The shell \<^verbatim>\<open>lsh\<close> is a sequence of system calls on the state of one process, the
  interpreter. The model keeps that state in a record and turns every system call into a
  function on it. What the kernel decides (whether a file opens, a pipe or a fork succeeds,
  whether a program can be executed, what a fresh heap cell holds) is read from a record of
  oracles, so that every theorem holds for every behaviour of the kernel.

  The repository holds the shell in more than one revision. The model follows the final
  one, the revision whose interrupt handler is \<^verbatim>\<open>KillChildrenOnSignal\<close> and whose
  messages go to the error stream; the earlier revision kept in \<^verbatim>\<open>lsh.c\<close> is modelled
  beside it where the two differ.
\<close>

type_synonym errno = int

abbreviation (input) ENOENT :: errno where "ENOENT \<equiv> 2"
abbreviation (input) EACCES :: errno where "EACCES \<equiv> 13"
abbreviation (input) EFAULT :: errno where "EFAULT \<equiv> 14"
abbreviation (input) ENOTDIR :: errno where "ENOTDIR \<equiv> 20"
abbreviation (input) EISDIR :: errno where "EISDIR \<equiv> 21"

abbreviation (input) STDIN_FILENO :: nat where "STDIN_FILENO \<equiv> 0"
abbreviation (input) STDOUT_FILENO :: nat where "STDOUT_FILENO \<equiv> 1"
abbreviation (input) STDERR_FILENO :: nat where "STDERR_FILENO \<equiv> 2"

text \<open>What an open descriptor refers to.\<close>

datatype fobj =
    Inherited nat
  | File_read string
  | File_write string
  | Pipe_read nat
  | Pipe_write nat

type_synonym fdtable = "(nat \<times> fobj) list"

text \<open>The disposition of a signal: default, ignored, or a handler of the shell
  (\<^verbatim>\<open>KillChildrenOnSignal\<close> in the final revision, \<^verbatim>\<open>KillChildren\<close> in the earlier one).\<close>

datatype disposition = SIG_DFL | SIG_IGN | SIG_KillChildrenOnSignal | SIG_KillChildren

text \<open>
  Modelled from the spec: \<^verbatim>\<open>parse.h\<close> is not among the sources. The structured command is
  what \<^verbatim>\<open>RunCommand\<close> reads from it: the list \<open>pgm\<close> of stages (a linked list of argument
  vectors), the two optional redirection paths and the background flag. An argument vector
  is a program name followed by its arguments; the terminating null pointer is the position
  after the last argument. The parser delivers no stage without a program name.
\<close>

datatype argv = Argv (prog: string) (args: "string list")

record Command =
  pgm :: "argv list"
  rstdin :: "string option"
  rstdout :: "string option"
  background :: bool

text \<open>\<^verbatim>\<open>command[1]\<close>: the first argument, or the null sentinel when there is none.\<close>

definition command1 :: "argv \<Rightarrow> string option" where
  "command1 command = (case args command of [] \<Rightarrow> None | a # _ \<Rightarrow> Some a)"

text \<open>
  A child process, as the fork and the code of the child branch leave it: its descriptor
  table, the disposition of the interrupt signal, its working directory, what it wrote
  (the object written to, and the text), whether its image was replaced and, if the child
  branch ran to its \<^verbatim>\<open>exit\<close>, the exit status.
\<close>

record process =
  p_pid :: int
  p_command :: argv
  p_fds :: fdtable
  p_sigint :: disposition
  p_cwd :: string
  p_writes :: "(fobj option \<times> string) list"
  p_replaced :: bool
  p_exit :: "int option"

text \<open>
  The interpreter process, with the two globals \<open>children\<close> and \<open>numChildren\<close> of the
  program, the processes it has spawned, what it wrote on its error stream and on its
  standard output, the arguments of its calls of \<^verbatim>\<open>waitpid\<close> and of \<^verbatim>\<open>kill\<close>, the
  children known to have ended (\<open>terminated\<close>), and its own process identifier and
  process group. The program never changes a process group, so every child is in the
  group of the interpreter. When the interpreter itself has ended, \<open>exit_status\<close> holds
  its status.
\<close>

record shell =
  fds :: fdtable
  cwd :: string
  sigint :: disposition
  sigchld :: disposition
  children :: "int list"
  numChildren :: nat
  procs :: "process list"
  stderr_out :: "string list"
  stdout_out :: "string list"
  waited :: "int list"
  killed :: "int list"
  exit_status :: "int option"
  clock :: nat
  next_pid :: int
  terminated :: "int list"
  own_pid :: int
  own_pgrp :: int

text \<open>
  The decisions of the kernel while the shell runs. Whether a path opens for reading or
  can be created, and whether a program can be executed, depends on the path or name;
  \<open>chdir_to\<close> resolves a path against the current directory to the new directory or to
  an error; \<open>pipe_fails\<close> and \<open>fork_fails\<close> are asked at the current value of the clock,
  which every such call advances; \<open>heap\<close> is the content of memory that the program has
  not written. Two more oracles describe what happens around the interpreter while it
  waits: \<open>finishes p\<close> tells whether the program run by the child \<open>p\<close> ends by itself,
  and \<open>sigint_at t\<close> whether the interrupt signal reaches the interpreter during the
  call of \<^verbatim>\<open>waitpid\<close> made at clock value \<open>t\<close>.
\<close>

record os =
  open_err :: "string \<Rightarrow> errno option"
  creat_err :: "string \<Rightarrow> errno option"
  chdir_to :: "string \<Rightarrow> string \<Rightarrow> errno + string"
  execvp_err :: "string \<Rightarrow> errno option"
  pipe_fails :: "nat \<Rightarrow> bool"
  fork_fails :: "nat \<Rightarrow> bool"
  heap :: "nat \<Rightarrow> int"
  finishes :: "int \<Rightarrow> bool"
  sigint_at :: "nat \<Rightarrow> bool"

subsection \<open>Descriptor tables\<close>

definition fd_keys :: "fdtable \<Rightarrow> nat list" where
  "fd_keys t = map fst t"

text \<open>The lowest descriptor that is not open, which is the one the kernel hands out.\<close>

definition fd_lowest :: "fdtable \<Rightarrow> nat" where
  "fd_lowest t =
     (case filter (\<lambda>n. n \<notin> set (fd_keys t)) [0..<Suc (length t)] of
        [] \<Rightarrow> Suc (length t)
      | n # _ \<Rightarrow> n)"

definition fd_close :: "nat \<Rightarrow> fdtable \<Rightarrow> fdtable" where
  "fd_close n t = filter (\<lambda>e. fst e \<noteq> n) t"

definition fd_dup2 :: "nat \<Rightarrow> nat \<Rightarrow> fdtable \<Rightarrow> fdtable" where
  "fd_dup2 old new t =
     (case map_of t old of
        None \<Rightarrow> t
      | Some ob \<Rightarrow> if old = new then t else (new, ob) # fd_close new t)"

subsection \<open>System calls of the interpreter\<close>

definition sys_open :: "os \<Rightarrow> string \<Rightarrow> shell \<Rightarrow> (errno + nat) \<times> shell" where
  "sys_open k path s =
     (case open_err k path of
        Some e \<Rightarrow> (Inl e, s)
      | None \<Rightarrow>
          (let n = fd_lowest (fds s)
           in (Inr n, s\<lparr>fds := (n, File_read path) # fds s\<rparr>)))"

definition sys_creat :: "os \<Rightarrow> string \<Rightarrow> shell \<Rightarrow> (errno + nat) \<times> shell" where
  "sys_creat k path s =
     (case creat_err k path of
        Some e \<Rightarrow> (Inl e, s)
      | None \<Rightarrow>
          (let n = fd_lowest (fds s)
           in (Inr n, s\<lparr>fds := (n, File_write path) # fds s\<rparr>)))"

definition sys_close :: "nat \<Rightarrow> shell \<Rightarrow> shell" where
  "sys_close n s = s\<lparr>fds := fd_close n (fds s)\<rparr>"

text \<open>\<^verbatim>\<open>pipe\<close>: on success the read end and the write end, in this order.\<close>

definition sys_pipe :: "os \<Rightarrow> shell \<Rightarrow> (nat \<times> nat) option \<times> shell" where
  "sys_pipe k s =
     (if pipe_fails k (clock s) then (None, s\<lparr>clock := Suc (clock s)\<rparr>)
      else
        (let r = fd_lowest (fds s);
             t = (r, Pipe_read (clock s)) # fds s;
             w = fd_lowest t
         in (Some (r, w), s\<lparr>fds := (w, Pipe_write (clock s)) # t, clock := Suc (clock s)\<rparr>)))"

text \<open>\<^verbatim>\<open>chdir\<close>: a null pointer is a bad address; otherwise the kernel resolves the path
  against the current directory.\<close>

definition sys_chdir :: "os \<Rightarrow> string option \<Rightarrow> shell \<Rightarrow> errno option \<times> shell" where
  "sys_chdir k path s =
     (case path of
        None \<Rightarrow> (Some EFAULT, s)
      | Some p \<Rightarrow>
          (case chdir_to k (cwd s) p of
             Inl e \<Rightarrow> (Some e, s)
           | Inr d \<Rightarrow> (None, s\<lparr>cwd := d\<rparr>)))"

text \<open>\<^verbatim>\<open>fork\<close> seen from the parent: the identifier of the new process, or \<open>None\<close>
  when no process was created and the call returned \<open>-1\<close>.\<close>

definition sys_fork :: "os \<Rightarrow> shell \<Rightarrow> int option \<times> shell" where
  "sys_fork k s =
     (if fork_fails k (clock s) then (None, s\<lparr>clock := Suc (clock s)\<rparr>)
      else (Some (next_pid s), s\<lparr>clock := Suc (clock s), next_pid := next_pid s + 1\<rparr>))"

text \<open>The children of the interpreter that run: those whose image was replaced by a
  program (a child whose \<^verbatim>\<open>execvp\<close> failed has left through \<^verbatim>\<open>exit\<close>) and that are not
  known to have ended.\<close>

definition alive :: "shell \<Rightarrow> int list" where
  "alive s =
     map p_pid (filter (\<lambda>p. p_replaced p \<and> p_pid p \<notin> set (terminated s)) (procs s))"

text \<open>
  \<^verbatim>\<open>kill(p, SIGKILL)\<close>. The argument selects the receivers: a positive \<open>p\<close> the process
  with that identifier, \<open>0\<close> every process of the caller's process group, \<open>-1\<close> every
  process the caller may signal except the caller itself, and a \<open>p\<close> below \<open>-1\<close> every
  process of the group \<open>-p\<close>. The signal cannot be caught: a receiver ends, and when the
  interpreter is among the receivers it ends with the status 137 that stands for a death
  by signal 9. A process that is not a child of the interpreter is outside the model.
\<close>

definition hits_group :: "int \<Rightarrow> shell \<Rightarrow> bool" where
  "hits_group p s \<longleftrightarrow> p = 0 \<or> (p < - 1 \<and> - p = own_pgrp s)"

definition sys_kill :: "int \<Rightarrow> shell \<Rightarrow> shell" where
  "sys_kill p s =
     (let s1 = s\<lparr>killed := killed s @ [p]\<rparr>
      in if hits_group p s
         then s1\<lparr>terminated := terminated s @ alive s, exit_status := Some 137\<rparr>
         else if p = - 1 then s1\<lparr>terminated := terminated s @ alive s\<rparr>
         else if p = own_pid s then s1\<lparr>exit_status := Some 137\<rparr>
         else if 0 < p then s1\<lparr>terminated := terminated s @ [p]\<rparr>
         else s1)"

definition eprint :: "string \<Rightarrow> shell \<Rightarrow> shell" where
  "eprint msg s = s\<lparr>stderr_out := stderr_out s @ [msg]\<rparr>"

definition oprint :: "string \<Rightarrow> shell \<Rightarrow> shell" where
  "oprint msg s = s\<lparr>stdout_out := stdout_out s @ [msg]\<rparr>"

text \<open>\<^verbatim>\<open>malloc\<close>: \<open>n\<close> cells holding whatever the heap held.\<close>

definition malloc :: "os \<Rightarrow> nat \<Rightarrow> int list" where
  "malloc k n = map (heap k) [0..<n]"

subsection \<open>Printing a number\<close>

function decimal :: "nat \<Rightarrow> string" where
  "decimal n =
     (if n < 10 then [char_of (48 + n)]
      else decimal (n div 10) @ [char_of (48 + n mod 10)])"
  by pat_completeness auto
termination
  by (relation "measure id") auto

declare decimal.simps [simp del]

definition show_int :: "int \<Rightarrow> string" where
  "show_int i = (if i < 0 then CHR ''-'' # decimal (nat (- i)) else decimal (nat i))"

section \<open>The shell\<close>

subsection \<open>Error messages\<close>

definition CountCommands :: "argv list \<Rightarrow> nat" where
  "CountCommands p = length p"

definition file_error_text :: "errno \<Rightarrow> string" where
  "file_error_text e =
     (if e = EACCES then ''Access denied\<newline>''
      else if e = EISDIR then ''File is a directory\<newline>''
      else if e = ENOENT then ''No such file\<newline>''
      else ''Could not open file\<newline>'')"

definition handle_file_error :: "errno \<Rightarrow> shell \<Rightarrow> shell" where
  "handle_file_error e s = eprint (file_error_text e) s"

definition directory_error_text :: "errno \<Rightarrow> string" where
  "directory_error_text e =
     (if e = EACCES then ''Permission denied\<newline>''
      else if e = ENOENT then ''No such path\<newline>''
      else if e = ENOTDIR then ''Not a directory\<newline>''
      else if e = EFAULT then ''Invalid argument\<newline>''
      else ''Could not change working directory ('' @ show_int e @ '')\<newline>'')"

definition handle_directory_error :: "errno \<Rightarrow> shell \<Rightarrow> shell" where
  "handle_directory_error e s = eprint (directory_error_text e) s"

definition command_error_text :: "errno \<Rightarrow> string \<Rightarrow> string" where
  "command_error_text e name =
     (if e = ENOENT then ''Could not find executable: '' @ name @ ''\<newline>''
      else ''Failed to execute: '' @ name)"

subsection \<open>The child branch\<close>

text \<open>
  \<^verbatim>\<open>handle_command\<close> runs in the child: \<^verbatim>\<open>execvp\<close> replaces the image, and then nothing
  after it runs; when it fails, the message goes to the child's descriptor 2.
\<close>

definition handle_command :: "os \<Rightarrow> argv \<Rightarrow> process \<Rightarrow> process" where
  "handle_command k command p =
     (case execvp_err k (prog command) of
        None \<Rightarrow> p\<lparr>p_replaced := True\<rparr>
      | Some e \<Rightarrow>
          p\<lparr>p_writes := p_writes p @
               [(map_of (p_fds p) STDERR_FILENO, command_error_text e (prog command))]\<rparr>)"

text \<open>\<^verbatim>\<open>exit(status)\<close> in the child, reached only when the image was not replaced.\<close>

definition child_exit :: "int \<Rightarrow> process \<Rightarrow> process" where
  "child_exit st p = (if p_replaced p then p else p\<lparr>p_exit := Some st\<rparr>)"

text \<open>
  The child branch of the fork in \<^verbatim>\<open>RunCommand\<close>: it sets the interrupt signal to
  ignored, closes the write end of the new pipe, installs its input and its output on
  the descriptors 0 and 1, and hands over to \<^verbatim>\<open>handle_command\<close>. \<open>pd\<close> is the pipe made
  for this stage, \<open>None\<close> on the last command, where the source leaves
  \<^verbatim>\<open>pipe_descriptor\<close> unset and does not read it.
\<close>

definition child_branch ::
  "os \<Rightarrow> (nat \<times> nat) option \<Rightarrow> nat \<Rightarrow> nat \<Rightarrow> argv \<Rightarrow> int \<Rightarrow> shell \<Rightarrow> process" where
  "child_branch k pd c_in c_out command child s =
     (let t0 = fds s;
          t1 = (case pd of
                  Some (r, w) \<Rightarrow> if w \<noteq> STDOUT_FILENO then fd_close w t0 else t0
                | None \<Rightarrow> t0);
          t2 = (if c_in \<noteq> STDIN_FILENO
                then fd_close c_in (fd_dup2 c_in STDIN_FILENO t1) else t1);
          t3 = (if c_out \<noteq> STDOUT_FILENO
                then fd_close c_out (fd_dup2 c_out STDOUT_FILENO t2) else t2)
      in child_exit 0
           (handle_command k command
              \<lparr>p_pid = child, p_command = command, p_fds = t3, p_sigint = SIG_IGN,
               p_cwd = cwd s, p_writes = [], p_replaced = False, p_exit = None\<rparr>))"

subsection \<open>The stages of a pipeline\<close>

text \<open>The local variables of \<^verbatim>\<open>RunCommand\<close> that the loop over the stages changes.\<close>

record frame =
  command_counter :: nat
  command_pids :: "int list"
  curr_command_index :: nat
  child_in :: nat
  child_out :: nat

text \<open>How one round of the loop over the stages ends: it goes on to the next stage, it
  breaks out of the loop, or the interpreter has called \<^verbatim>\<open>exit\<close>.\<close>

datatype flow = Next | Break | Exit

text \<open>The parent branch of the fork; \<open>child\<close> is what \<^verbatim>\<open>fork\<close> returned.\<close>

definition parent_branch ::
  "(nat \<times> nat) option \<Rightarrow> int \<Rightarrow> frame \<Rightarrow> shell \<Rightarrow> frame \<times> shell" where
  "parent_branch pd child f s =
     (let s1 = (if child_in f \<noteq> STDIN_FILENO then sys_close (child_in f) s else s);
          s2 = (if child_out f \<noteq> STDOUT_FILENO then sys_close (child_out f) s1 else s1);
          f1 = f\<lparr>command_pids := (command_pids f)[curr_command_index f := child]\<rparr>;
          f2 = (case pd of Some (r, w) \<Rightarrow> f1\<lparr>child_out := w\<rparr> | None \<Rightarrow> f1)
      in (f2, s2))"

text \<open>The body of the loop after the pipe is set up: the built-in commands, or the fork
  with its two branches. A fork that fails creates no process, and the parent branch runs
  with \<open>-1\<close>.\<close>

definition stage_body ::
  "os \<Rightarrow> argv \<Rightarrow> (nat \<times> nat) option \<Rightarrow> frame \<Rightarrow> shell \<Rightarrow> flow \<times> frame \<times> shell" where
  "stage_body k command pd f s =
     (if prog command = ''exit'' then (Exit, f, s\<lparr>exit_status := Some 0\<rparr>)
      else if prog command = ''cd'' then
        (case sys_chdir k (command1 command) s of
           (Some e, s1) \<Rightarrow> (Next, f\<lparr>command_counter := 0\<rparr>, handle_directory_error e s1)
         | (None, s1) \<Rightarrow> (Next, f\<lparr>command_counter := 0\<rparr>, s1))
      else
        (case sys_fork k s of
           (None, s1) \<Rightarrow>
             (case parent_branch pd (- 1) f s1 of (f1, s2) \<Rightarrow> (Next, f1, s2))
         | (Some child, s1) \<Rightarrow>
             (case parent_branch pd child f
                     (s1\<lparr>procs := procs s1 @
                          [child_branch k pd (child_in f) (child_out f) command child s1]\<rparr>) of
                (f1, s2) \<Rightarrow> (Next, f1, s2))))"

text \<open>One round of the loop; \<open>on_last_command\<close> says that no stage follows in the list.\<close>

definition stage_step ::
  "os \<Rightarrow> nat \<Rightarrow> argv \<Rightarrow> bool \<Rightarrow> frame \<Rightarrow> shell \<Rightarrow> flow \<times> frame \<times> shell" where
  "stage_step k last_in command on_last_command f s =
     (if \<not> on_last_command then
        (case sys_pipe k s of
           (None, s1) \<Rightarrow>
             (let s2 = eprint ''Pipe failed'' s1;
                  s3 = (if child_out f \<noteq> STDOUT_FILENO then sys_close (child_out f) s2 else s2)
              in (Break, f, s3))
         | (Some pd, s1) \<Rightarrow>
             (case stage_body k command (Some pd) (f\<lparr>child_in := fst pd\<rparr>) s1 of
                (fl, f1, s2) \<Rightarrow>
                  (fl, f1\<lparr>curr_command_index := Suc (curr_command_index f1)\<rparr>, s2)))
      else
        (case stage_body k command None (f\<lparr>child_in := last_in\<rparr>) s of
           (fl, f1, s2) \<Rightarrow>
             (fl, f1\<lparr>curr_command_index := Suc (curr_command_index f1)\<rparr>, s2)))"

fun run_stages ::
  "os \<Rightarrow> nat \<Rightarrow> argv list \<Rightarrow> frame \<Rightarrow> shell \<Rightarrow> flow \<times> frame \<times> shell" where
  "run_stages k last_in [] f s = (Next, f, s)"
| "run_stages k last_in (command # rest) f s =
     (case stage_step k last_in command (rest = []) f s of
        (Next, f1, s1) \<Rightarrow> run_stages k last_in rest f1 s1
      | (Break, f1, s1) \<Rightarrow> (Break, f1, s1)
      | (Exit, f1, s1) \<Rightarrow> (Exit, f1, s1))"

subsection \<open>The foreground wait and the interrupt handler\<close>

text \<open>The loop of the handler. A process that has been killed runs no further, so the
  loop ends with the call of \<^verbatim>\<open>kill\<close> that reaches the interpreter itself.\<close>

function kill_from :: "nat \<Rightarrow> shell \<Rightarrow> shell" where
  "kill_from i s =
     (if i < numChildren s \<and> exit_status s = None
      then kill_from (Suc i) (sys_kill (children s ! i) s) else s)"
  by pat_completeness auto
termination
  by (relation "measure (\<lambda>(i, s). numChildren s - i)") (auto simp: sys_kill_def Let_def)

declare kill_from.simps [simp del]

definition KillChildrenOnSignal :: "int \<Rightarrow> shell \<Rightarrow> shell" where
  "KillChildrenOnSignal status s = kill_from 0 s"

text \<open>
  The handler of the earlier revision, \<^verbatim>\<open>KillChildren\<close>. Its loop is bounded by
  \<^verbatim>\<open>sizeof(children)/sizeof(__pid_t)\<close>, the size of a pointer counted in process
  identifiers: 2 where a pointer has eight bytes and an identifier four. It reads
  \<^verbatim>\<open>children[i]\<close> whether or not the array has that many cells; beyond the array the
  value is whatever the heap holds there.
\<close>

definition pids_per_pointer :: nat where
  "pids_per_pointer = 2"

definition children_at :: "os \<Rightarrow> shell \<Rightarrow> nat \<Rightarrow> int" where
  "children_at k s i = (if i < length (children s) then children s ! i else heap k i)"

function kill_upto :: "os \<Rightarrow> nat \<Rightarrow> nat \<Rightarrow> shell \<Rightarrow> shell" where
  "kill_upto k w i s =
     (if i < w \<and> exit_status s = None
      then kill_upto k w (Suc i) (sys_kill (children_at k s i) s) else s)"
  by pat_completeness auto
termination
  by (relation "measure (\<lambda>(k, w, i, s). w - i)") auto

declare kill_upto.simps [simp del]

definition KillChildren :: "os \<Rightarrow> int \<Rightarrow> shell \<Rightarrow> shell" where
  "KillChildren k status s =
     (let s1 = kill_upto k pids_per_pointer 0 s
      in if exit_status s1 = None then oprint ''\<newline>'' s1 else s1)"

text \<open>Delivery of the interrupt signal (number 2) to the interpreter. Under the default
  disposition the signal terminates the process.\<close>

definition deliver_SIGINT :: "os \<Rightarrow> shell \<Rightarrow> shell" where
  "deliver_SIGINT k s =
     (case sigint s of
        SIG_IGN \<Rightarrow> s
      | SIG_DFL \<Rightarrow> s\<lparr>exit_status := Some 130\<rparr>
      | SIG_KillChildrenOnSignal \<Rightarrow> KillChildrenOnSignal 2 s
      | SIG_KillChildren \<Rightarrow> KillChildren k 2 s)"

text \<open>The state in which the interpreter waits: the job is published and the handler
  is armed.\<close>

definition publish :: "frame \<Rightarrow> shell \<Rightarrow> shell" where
  "publish f s =
     s\<lparr>children := command_pids f, numChildren := command_counter f,
       sigint := SIG_KillChildrenOnSignal\<rparr>"

text \<open>
  \<^verbatim>\<open>waitpid(p, exitcode, WUNTRACED)\<close>. The call blocks. While it blocks the interrupt
  signal may arrive; then the handler runs and the call is resumed. The result is the
  state together with the answer to the question whether the call returns: it does not
  when the interpreter was killed meanwhile, and it does not while a child that it waits
  for runs and never ends. A positive \<open>p\<close> waits for that child, and returns at once when
  the interpreter has no running child of that identifier. With \<open>0\<close>, \<open>-1\<close> or the
  negated process group of the interpreter the call waits for any child; the interpreter
  ignores \<^verbatim>\<open>SIGCHLD\<close> from the first statement of \<^verbatim>\<open>main\<close> on, so a child that ends
  leaves nothing to collect and the call returns when no child is left. A child that is
  stopped, which \<^verbatim>\<open>WUNTRACED\<close> would report, is outside the model.
\<close>

definition waits_for_any :: "int \<Rightarrow> shell \<Rightarrow> bool" where
  "waits_for_any p s \<longleftrightarrow> p = - 1 \<or> hits_group p s"

definition wait_entry :: "os \<Rightarrow> int \<Rightarrow> shell \<Rightarrow> shell" where
  "wait_entry k p s =
     (let s0 = s\<lparr>waited := waited s @ [p], clock := Suc (clock s)\<rparr>
      in if sigint_at k (clock s) then deliver_SIGINT k s0 else s0)"

definition sys_waitpid :: "os \<Rightarrow> int \<Rightarrow> shell \<Rightarrow> bool \<times> shell" where
  "sys_waitpid k p s =
     (let s1 = wait_entry k p s
      in if exit_status s1 \<noteq> None then (False, s1)
         else if waits_for_any p s1 then
           (if list_all (finishes k) (alive s1)
            then (True, s1\<lparr>terminated := terminated s1 @ alive s1\<rparr>) else (False, s1))
         else if p \<in> set (alive s1) then
           (if finishes k p then (True, s1\<lparr>terminated := terminated s1 @ [p]\<rparr>)
            else (False, s1))
         else (True, s1))"

text \<open>The loop over the recorded identifiers. It goes on to the next cell when the call
  has returned.\<close>

function wait_from :: "os \<Rightarrow> nat \<Rightarrow> frame \<Rightarrow> shell \<Rightarrow> bool \<times> shell" where
  "wait_from k i f s =
     (if i < command_counter f
      then (case sys_waitpid k (command_pids f ! i) s of
              (True, s1) \<Rightarrow> wait_from k (Suc i) f s1
            | (False, s1) \<Rightarrow> (False, s1))
      else (True, s))"
  by pat_completeness auto
termination
  by (relation "measure (\<lambda>(k, i, f, s). command_counter f - i)") auto

declare wait_from.simps [simp del]

definition unpublish :: "shell \<Rightarrow> shell" where
  "unpublish s = s\<lparr>numChildren := 0, sigint := SIG_IGN\<rparr>"

text \<open>The end of \<^verbatim>\<open>RunCommand\<close>: the wait of a foreground command. The answer tells
  whether control comes back from it.\<close>

definition complete :: "os \<Rightarrow> Command \<Rightarrow> frame \<Rightarrow> shell \<Rightarrow> bool \<times> shell" where
  "complete k cmd f s =
     (if \<not> background cmd then
        (case wait_from k 0 f (publish f s) of
           (True, s1) \<Rightarrow> (True, unpublish s1)
         | (False, s1) \<Rightarrow> (False, s1))
      else (True, s))"

subsection \<open>Running a command\<close>

text \<open>The way control leaves \<^verbatim>\<open>RunCommand\<close>, or does not: \<open>Blocked\<close> when the
  interpreter stays in a call of \<^verbatim>\<open>waitpid\<close> that never returns, \<open>Killed\<close> when it
  was ended by a signal during the wait.\<close>

datatype outcome =
  Input_failed | Output_failed | Pipe_failed | Exit_called | Completed | Blocked | Killed

definition open_input :: "os \<Rightarrow> Command \<Rightarrow> shell \<Rightarrow> (errno + nat) \<times> shell" where
  "open_input k cmd s =
     (case rstdin cmd of None \<Rightarrow> (Inr STDIN_FILENO, s) | Some path \<Rightarrow> sys_open k path s)"

definition create_output :: "os \<Rightarrow> Command \<Rightarrow> shell \<Rightarrow> (errno + nat) \<times> shell" where
  "create_output k cmd s =
     (case rstdout cmd of None \<Rightarrow> (Inr STDOUT_FILENO, s) | Some path \<Rightarrow> sys_creat k path s)"

definition first_frame :: "os \<Rightarrow> Command \<Rightarrow> nat \<Rightarrow> frame" where
  "first_frame k cmd out =
     \<lparr>command_counter = CountCommands (pgm cmd),
      command_pids = malloc k (CountCommands (pgm cmd)),
      curr_command_index = 0, child_in = STDIN_FILENO, child_out = out\<rparr>"

text \<open>The state in which the stages have been launched, before the wait.\<close>

definition launch :: "os \<Rightarrow> Command \<Rightarrow> shell \<Rightarrow> outcome \<times> frame \<times> shell" where
  "launch k cmd s =
     (case open_input k cmd s of
        (Inl e, s1) \<Rightarrow> (Input_failed, first_frame k cmd STDOUT_FILENO, handle_file_error e s1)
      | (Inr last_in, s1) \<Rightarrow>
          (case create_output k cmd s1 of
             (Inl e, s2) \<Rightarrow>
               (let s3 = handle_file_error e s2;
                    s4 = (if last_in \<noteq> STDIN_FILENO then sys_close last_in s3 else s3)
                in (Output_failed, first_frame k cmd STDOUT_FILENO, s4))
           | (Inr out, s2) \<Rightarrow>
               (case run_stages k last_in (pgm cmd) (first_frame k cmd out) s2 of
                  (Next, f, s3) \<Rightarrow> (Completed, f, s3)
                | (Break, f, s3) \<Rightarrow> (Pipe_failed, f, s3)
                | (Exit, f, s3) \<Rightarrow> (Exit_called, f, s3))))"

definition finish :: "outcome \<Rightarrow> bool \<times> shell \<Rightarrow> outcome \<times> shell" where
  "finish oc r =
     (if fst r then (oc, snd r)
      else (if exit_status (snd r) = None then Blocked else Killed, snd r))"

definition RunCommand :: "os \<Rightarrow> int \<Rightarrow> Command \<Rightarrow> shell \<Rightarrow> outcome \<times> shell" where
  "RunCommand k parse_result cmd s =
     (case launch k cmd s of
        (Completed, f, s1) \<Rightarrow> finish Completed (complete k cmd f s1)
      | (Pipe_failed, f, s1) \<Rightarrow> finish Pipe_failed (complete k cmd f s1)
      | (oc, f, s1) \<Rightarrow> (oc, s1))"

text \<open>The state in which a foreground command waits for its stages.\<close>

definition waiting :: "os \<Rightarrow> Command \<Rightarrow> shell \<Rightarrow> shell" where
  "waiting k cmd s = (case launch k cmd s of (oc, f, s1) \<Rightarrow> publish f s1)"

subsection \<open>The read-eval loop\<close>

text \<open>A line of input is blank after stripping, or it is handed to the parser, whose
  result and structured command are taken as given. The end of the list is the end of
  input. The loop reads the next line when \<^verbatim>\<open>RunCommand\<close> has returned and the
  interpreter lives.\<close>

datatype line = Blank | Parsed int Command

fun read_eval :: "os \<Rightarrow> line list \<Rightarrow> shell \<Rightarrow> shell" where
  "read_eval k [] s = s\<lparr>exit_status := Some 0\<rparr>"
| "read_eval k (Blank # rest) s = read_eval k rest s"
| "read_eval k (Parsed r cmd # rest) s =
     (case RunCommand k r cmd s of
        (oc, s1) \<Rightarrow>
          if exit_status s1 = None \<and> oc \<noteq> Blocked then read_eval k rest s1 else s1)"

definition main :: "os \<Rightarrow> line list \<Rightarrow> shell \<Rightarrow> shell" where
  "main k input s = read_eval k input (s\<lparr>sigint := SIG_IGN, sigchld := SIG_IGN\<rparr>)"

text \<open>The pipeline order of the stages, left to right, as \<^verbatim>\<open>PrintPgm\<close> prints them:
  the rest of the list first, then the head.\<close>

fun PrintPgm :: "argv list \<Rightarrow> argv list" where
  "PrintPgm [] = []"
| "PrintPgm (p # rest) = PrintPgm rest @ [p]"

subsection \<open>The earlier revision of the shell\<close>

text \<open>
  The file \<^verbatim>\<open>lsh.c\<close> holds an earlier revision of \<^verbatim>\<open>RunCommand\<close>. It prints its messages
  with \<^verbatim>\<open>printf\<close>, runs \<^verbatim>\<open>cd\<close> in the forked child, sets no disposition in the child,
  leaves the interpreter on a pipe failure, and does not close the input descriptor when
  the output cannot be created. The parent branch, the system calls and the wait loop
  are those of the final revision.
\<close>

definition handle_file_error_early :: "errno \<Rightarrow> shell \<Rightarrow> shell" where
  "handle_file_error_early e s = oprint (file_error_text e) s"

text \<open>\<^verbatim>\<open>printf\<close> in a child writes to its descriptor 1.\<close>

definition child_printf :: "string \<Rightarrow> process \<Rightarrow> process" where
  "child_printf msg p =
     p\<lparr>p_writes := p_writes p @ [(map_of (p_fds p) STDOUT_FILENO, msg)]\<rparr>"

definition handle_command_early :: "os \<Rightarrow> argv \<Rightarrow> process \<Rightarrow> process" where
  "handle_command_early k command p =
     (if prog command = ''cd'' then
        (case command1 command of
           None \<Rightarrow> child_printf (directory_error_text EFAULT) p
         | Some path \<Rightarrow>
             (case chdir_to k (p_cwd p) path of
                Inl e \<Rightarrow> child_printf (directory_error_text e) p
              | Inr d \<Rightarrow> p\<lparr>p_cwd := d\<rparr>))
      else
        (case execvp_err k (prog command) of
           None \<Rightarrow> p\<lparr>p_replaced := True\<rparr>
         | Some e \<Rightarrow> child_printf (command_error_text e (prog command)) p))"

definition child_branch_early ::
  "os \<Rightarrow> (nat \<times> nat) option \<Rightarrow> nat \<Rightarrow> nat \<Rightarrow> argv \<Rightarrow> int \<Rightarrow> shell \<Rightarrow> process" where
  "child_branch_early k pd c_in c_out command child s =
     (let t0 = fds s;
          t1 = (case pd of
                  Some (r, w) \<Rightarrow> if w \<noteq> STDOUT_FILENO then fd_close w t0 else t0
                | None \<Rightarrow> t0);
          t2 = (if c_in \<noteq> STDIN_FILENO
                then fd_close c_in (fd_dup2 c_in STDIN_FILENO t1) else t1);
          t3 = (if c_out \<noteq> STDOUT_FILENO
                then fd_close c_out (fd_dup2 c_out STDOUT_FILENO t2) else t2)
      in child_exit 0
           (handle_command_early k command
              \<lparr>p_pid = child, p_command = command, p_fds = t3, p_sigint = sigint s,
               p_cwd = cwd s, p_writes = [], p_replaced = False, p_exit = None\<rparr>))"

definition stage_body_early ::
  "os \<Rightarrow> argv \<Rightarrow> (nat \<times> nat) option \<Rightarrow> frame \<Rightarrow> shell \<Rightarrow> flow \<times> frame \<times> shell" where
  "stage_body_early k command pd f s =
     (if prog command = ''exit'' then (Exit, f, s\<lparr>exit_status := Some 0\<rparr>)
      else
        (case sys_fork k s of
           (None, s1) \<Rightarrow>
             (case parent_branch pd (- 1) f s1 of (f1, s2) \<Rightarrow> (Next, f1, s2))
         | (Some child, s1) \<Rightarrow>
             (case parent_branch pd child f
                     (s1\<lparr>procs := procs s1 @
                          [child_branch_early k pd (child_in f) (child_out f) command child
                             s1]\<rparr>) of
                (f1, s2) \<Rightarrow> (Next, f1, s2))))"

definition stage_step_early ::
  "os \<Rightarrow> nat \<Rightarrow> argv \<Rightarrow> bool \<Rightarrow> frame \<Rightarrow> shell \<Rightarrow> flow \<times> frame \<times> shell" where
  "stage_step_early k last_in command on_last_command f s =
     (if \<not> on_last_command then
        (case sys_pipe k s of
           (None, s1) \<Rightarrow> (Exit, f, (oprint ''Pipe failed'' s1)\<lparr>exit_status := Some (- 1)\<rparr>)
         | (Some pd, s1) \<Rightarrow>
             (case stage_body_early k command (Some pd) (f\<lparr>child_in := fst pd\<rparr>) s1 of
                (fl, f1, s2) \<Rightarrow>
                  (fl, f1\<lparr>curr_command_index := Suc (curr_command_index f1)\<rparr>, s2)))
      else
        (case stage_body_early k command None (f\<lparr>child_in := last_in\<rparr>) s of
           (fl, f1, s2) \<Rightarrow>
             (fl, f1\<lparr>curr_command_index := Suc (curr_command_index f1)\<rparr>, s2)))"

fun run_stages_early ::
  "os \<Rightarrow> nat \<Rightarrow> argv list \<Rightarrow> frame \<Rightarrow> shell \<Rightarrow> flow \<times> frame \<times> shell" where
  "run_stages_early k last_in [] f s = (Next, f, s)"
| "run_stages_early k last_in (command # rest) f s =
     (case stage_step_early k last_in command (rest = []) f s of
        (Next, f1, s1) \<Rightarrow> run_stages_early k last_in rest f1 s1
      | (Break, f1, s1) \<Rightarrow> (Break, f1, s1)
      | (Exit, f1, s1) \<Rightarrow> (Exit, f1, s1))"

text \<open>The state in which the earlier revision waits, and the end of its
  \<^verbatim>\<open>RunCommand\<close>: the interrupt signal is ignored again for every command.\<close>

definition publish_early :: "frame \<Rightarrow> shell \<Rightarrow> shell" where
  "publish_early f s = s\<lparr>children := command_pids f, sigint := SIG_KillChildren\<rparr>"

definition complete_early :: "os \<Rightarrow> Command \<Rightarrow> frame \<Rightarrow> shell \<Rightarrow> shell" where
  "complete_early k cmd f s =
     (case (if \<not> background cmd then wait_from k 0 f (publish_early f s) else (True, s)) of
        (True, s1) \<Rightarrow> s1\<lparr>sigint := SIG_IGN\<rparr>
      | (False, s1) \<Rightarrow> s1)"

definition RunCommand_early :: "os \<Rightarrow> int \<Rightarrow> Command \<Rightarrow> shell \<Rightarrow> shell" where
  "RunCommand_early k parse_result cmd s =
     (case open_input k cmd s of
        (Inl e, s1) \<Rightarrow> handle_file_error_early e s1
      | (Inr last_in, s1) \<Rightarrow>
          (case create_output k cmd s1 of
             (Inl e, s2) \<Rightarrow> handle_file_error_early e s2
           | (Inr out, s2) \<Rightarrow>
               (case run_stages_early k last_in (pgm cmd) (first_frame k cmd out) s2 of
                  (Exit, f, s3) \<Rightarrow> s3
                | (fl, f, s3) \<Rightarrow> complete_early k cmd f s3)))"

subsection \<open>What a run of a command adds, and two concrete worlds\<close>

text \<open>The processes that one call of \<^verbatim>\<open>RunCommand\<close> spawns, in the order of the forks.\<close>

definition spawned :: "os \<Rightarrow> int \<Rightarrow> Command \<Rightarrow> shell \<Rightarrow> process list" where
  "spawned k r cmd s = drop (length (procs s)) (procs (snd (RunCommand k r cmd s)))"

text \<open>The part of the interpreter that belongs to the job control: the published job,
  the signals sent and awaited, the dispositions, the children known to have ended and
  the identity of the interpreter.\<close>

definition unchanged_job :: "shell \<Rightarrow> shell \<Rightarrow> bool" where
  "unchanged_job s s' \<longleftrightarrow>
     children s' = children s \<and> numChildren s' = numChildren s \<and> waited s' = waited s \<and>
     killed s' = killed s \<and> sigint s' = sigint s \<and> sigchld s' = sigchld s \<and>
     terminated s' = terminated s \<and> own_pid s' = own_pid s \<and> own_pgrp s' = own_pgrp s"

text \<open>The part of the interpreter that neither a call of \<^verbatim>\<open>waitpid\<close> nor the handler
  touches.\<close>

definition wait_keeps :: "shell \<Rightarrow> shell \<Rightarrow> bool" where
  "wait_keeps s s' \<longleftrightarrow>
     fds s' = fds s \<and> cwd s' = cwd s \<and> procs s' = procs s \<and>
     stderr_out s' = stderr_out s \<and> sigchld s' = sigchld s \<and> sigint s' = sigint s \<and>
     children s' = children s \<and> numChildren s' = numChildren s \<and>
     next_pid s' = next_pid s \<and> own_pid s' = own_pid s \<and> own_pgrp s' = own_pgrp s"

text \<open>The interpreter in the foreground wait for a job whose cells all hold the
  identifier of a process other than the interpreter: the job is published with its full
  count, the handler is installed and the interpreter lives.\<close>

definition armed :: "frame \<Rightarrow> shell \<Rightarrow> bool" where
  "armed f s \<longleftrightarrow>
     children s = command_pids f \<and> numChildren s = command_counter f \<and>
     command_counter f = length (command_pids f) \<and>
     sigint s = SIG_KillChildrenOnSignal \<and> exit_status s = None \<and>
     list_all (\<lambda>p. 0 < p \<and> p \<noteq> own_pid s) (command_pids f)"

text \<open>A kernel on which every call succeeds, every program ends by itself and no
  interrupt arrives, and the interpreter as it starts: the three standard descriptors, no
  child, both signals ignored as \<^verbatim>\<open>main\<close> sets them.\<close>

definition kernel_ok :: os where
  "kernel_ok =
     \<lparr>open_err = (\<lambda>path. None), creat_err = (\<lambda>path. None),
      chdir_to = (\<lambda>dir path. Inr path), execvp_err = (\<lambda>name. None),
      pipe_fails = (\<lambda>t. False), fork_fails = (\<lambda>t. False), heap = (\<lambda>i. 0),
      finishes = (\<lambda>p. True), sigint_at = (\<lambda>t. False)\<rparr>"

definition boot :: shell where
  "boot =
     \<lparr>fds = [(0, Inherited 0), (1, Inherited 1), (2, Inherited 2)], cwd = ''/home'',
      sigint = SIG_IGN, sigchld = SIG_IGN, children = [], numChildren = 0, procs = [],
      stderr_out = [], stdout_out = [], waited = [], killed = [], exit_status = None,
      clock = 0,
      next_pid = 100, terminated = [], own_pid = 99, own_pgrp = 99\<rparr>"

text \<open>The pipeline \<^verbatim>\<open>ls | grep txt\<close> in the foreground, as the parser delivers it: the
  last stage is the head of the list. And a kernel that finds no executable.\<close>

definition ls_grep :: Command where
  "ls_grep =
     \<lparr>pgm = [Argv ''grep'' [''txt''], Argv ''ls'' []], rstdin = None, rstdout = None,
      background = False\<rparr>"

definition kernel_no_exec :: os where
  "kernel_no_exec = kernel_ok\<lparr>execvp_err := (\<lambda>name. Some ENOENT)\<rparr>"

text \<open>The command line \<^verbatim>\<open>cd /tmp\<close>, and a kernel on which no directory exists.\<close>

definition cd_tmp :: Command where
  "cd_tmp = \<lparr>pgm = [Argv ''cd'' [''/tmp'']], rstdin = None, rstdout = None, background = False\<rparr>"

definition kernel_no_dir :: os where
  "kernel_no_dir = kernel_ok\<lparr>chdir_to := (\<lambda>dir path. Inl ENOENT)\<rparr>"

text \<open>A kernel under which the interrupt arrives during every wait, and the foreground
  pipeline \<^verbatim>\<open>cd /tmp | sleep 100\<close>.\<close>

definition kernel_int :: os where
  "kernel_int = kernel_ok\<lparr>sigint_at := (\<lambda>t. True)\<rparr>"

definition cd_sleep :: Command where
  "cd_sleep =
     \<lparr>pgm = [Argv ''sleep'' [''100''], Argv ''cd'' [''/tmp'']], rstdin = None,
      rstdout = None, background = False\<rparr>"

text \<open>The foreground pipeline \<^verbatim>\<open>ls | sort | wc\<close>, and a kernel that makes the first
  pipe and not the second: the first call of \<^verbatim>\<open>pipe\<close> is made at clock value 0, the
  fork of the first child at 1 and the second call of \<^verbatim>\<open>pipe\<close> at 2.\<close>

definition ls_sort_wc :: Command where
  "ls_sort_wc =
     \<lparr>pgm = [Argv ''wc'' [], Argv ''sort'' [], Argv ''ls'' []], rstdin = None,
      rstdout = None, background = False\<rparr>"

definition kernel_pipe2 :: os where
  "kernel_pipe2 = kernel_int\<lparr>pipe_fails := (\<lambda>t. t = 2)\<rparr>"

text \<open>The command line \<^verbatim>\<open>sleep 100 &\<close>, and a kernel that makes no pipe, under which
  no program ends by itself and no interrupt arrives.\<close>

definition sleep_bg :: Command where
  "sleep_bg =
     \<lparr>pgm = [Argv ''sleep'' [''100'']], rstdin = None, rstdout = None, background = True\<rparr>"

definition kernel_hang :: os where
  "kernel_hang = kernel_ok\<lparr>pipe_fails := (\<lambda>t. True), finishes := (\<lambda>p. False)\<rparr>"

text \<open>The invariant of the loop over the stages that keeps descriptor 2 of the
  interpreter: it stays open on the same object, and neither the input of the last
  command nor the output of the next child is descriptor 2.\<close>

definition stderr_kept :: "fobj \<Rightarrow> nat \<Rightarrow> frame \<Rightarrow> shell \<Rightarrow> bool" where
  "stderr_kept ob li f s \<longleftrightarrow>
     li \<noteq> STDERR_FILENO \<and> child_out f \<noteq> STDERR_FILENO \<and>
     map_of (fds s) STDERR_FILENO = Some ob"

section \<open>Properties\<close>

subsection \<open>Descriptor tables\<close>

lemma fd_lowest_fresh: "fd_lowest t \<notin> set (fd_keys t)"
proof -
  let ?c = "filter (\<lambda>n. n \<notin> set (fd_keys t)) [0..<Suc (length t)]"
  have "?c \<noteq> []"
  proof
    assume "?c = []"
    then have "{0..<Suc (length t)} \<subseteq> set (fd_keys t)"
      by (auto simp: filter_empty_conv simp del: upt_Suc)
    then have "card {0..<Suc (length t)} \<le> card (set (fd_keys t))"
      by (intro card_mono) auto
    also have "\<dots> \<le> length (fd_keys t)" by (rule card_length)
    finally show False by (simp add: fd_keys_def)
  qed
  then obtain n ns where c: "?c = n # ns" by (cases ?c) auto
  then have "n \<in> set ?c" by (metis list.set_intros(1))
  then have "n \<notin> set (fd_keys t)" by (simp del: upt_Suc)
  with c show ?thesis by (simp add: fd_lowest_def del: upt_Suc)
qed

lemma fd_close_fresh: "n \<notin> set (fd_keys t) \<Longrightarrow> fd_close n t = t"
  by (induction t) (auto simp: fd_close_def fd_keys_def)

lemma fd_close_cons_fresh: "n \<notin> set (fd_keys t) \<Longrightarrow> fd_close n ((n, ob) # t) = t"
  using fd_close_fresh [of n t] by (simp add: fd_close_def)

subsection \<open>Redirection failures\<close>

text \<open>
  Claim C4. When the input path of a command does not exist (the open fails with
  \<open>ENOENT\<close>), \<^verbatim>\<open>RunCommand\<close> writes \<^verbatim>\<open>No such file\<close> and returns at once: the state
  of the interpreter is the state before the call with that one line added to its error
  stream, so no process was spawned and no descriptor was left open.
\<close>

theorem missing_input_aborts:
  assumes "rstdin cmd = Some path" and "open_err k path = Some ENOENT"
  shows "RunCommand k r cmd s =
           (Input_failed, s\<lparr>stderr_out := stderr_out s @ [''No such file\<newline>'']\<rparr>) \<and>
         spawned k r cmd s = [] \<and>
         fds (snd (RunCommand k r cmd s)) = fds s"
  using assms
  by (simp add: spawned_def RunCommand_def launch_def open_input_def sys_open_def
      handle_file_error_def eprint_def file_error_text_def)

theorem missing_input_aborts_witness:
  "rstdin \<lparr>pgm = [Argv ''sort'' []], rstdin = Some ''in.txt'', rstdout = None,
           background = False\<rparr> = Some ''in.txt'' \<and>
   open_err (kernel_ok\<lparr>open_err := (\<lambda>path. Some ENOENT)\<rparr>) ''in.txt'' = Some ENOENT \<and>
   RunCommand (kernel_ok\<lparr>open_err := (\<lambda>path. Some ENOENT)\<rparr>) 1
     \<lparr>pgm = [Argv ''sort'' []], rstdin = Some ''in.txt'', rstdout = None,
      background = False\<rparr> boot =
     (Input_failed, boot\<lparr>stderr_out := [''No such file\<newline>'']\<rparr>)"
  using missing_input_aborts [of
      "\<lparr>pgm = [Argv ''sort'' []], rstdin = Some ''in.txt'', rstdout = None,
        background = False\<rparr>"
      "''in.txt''" "kernel_ok\<lparr>open_err := (\<lambda>path. Some ENOENT)\<rparr>" 1 boot]
  by (simp add: boot_def)

text \<open>
  Claim C8. When the input file was opened and creating the output file fails, the command
  is aborted: the message for the error is written, nothing is spawned, and the input
  descriptor is closed again, so that the descriptor table is the one before the call.
  The interpreter is assumed to have its standard input open, as a descriptor 0 handed out
  by the open would be taken for the inherited input.
\<close>

theorem output_failure_releases_input:
  assumes "rstdin cmd = Some inp" and "open_err k inp = None"
    and "rstdout cmd = Some outp" and "creat_err k outp = Some e"
    and "STDIN_FILENO \<in> set (fd_keys (fds s))"
  shows "RunCommand k r cmd s =
           (Output_failed, s\<lparr>stderr_out := stderr_out s @ [file_error_text e]\<rparr>) \<and>
         spawned k r cmd s = [] \<and>
         fds (snd (RunCommand k r cmd s)) = fds s \<and>
         fd_lowest (fds s) \<notin> set (fd_keys (fds (snd (RunCommand k r cmd s))))"
proof -
  have "fd_lowest (fds s) \<noteq> 0"
    using assms(5) fd_lowest_fresh [of "fds s"] by metis
  then show ?thesis
    using assms fd_lowest_fresh [of "fds s"]
    by (simp add: spawned_def RunCommand_def launch_def open_input_def create_output_def
        sys_open_def sys_creat_def handle_file_error_def eprint_def Let_def sys_close_def
        fd_close_cons_fresh)
qed

theorem output_failure_releases_input_witness:
  "STDIN_FILENO \<in> set (fd_keys (fds boot)) \<and>
   RunCommand (kernel_ok\<lparr>creat_err := (\<lambda>path. Some EACCES)\<rparr>) 1
     \<lparr>pgm = [Argv ''sort'' []], rstdin = Some ''in.txt'', rstdout = Some ''/out.txt'',
      background = False\<rparr> boot =
     (Output_failed, boot\<lparr>stderr_out := [''Access denied\<newline>'']\<rparr>)"
  using output_failure_releases_input [of
      "\<lparr>pgm = [Argv ''sort'' []], rstdin = Some ''in.txt'', rstdout = Some ''/out.txt'',
        background = False\<rparr>"
      "''in.txt''" "kernel_ok\<lparr>creat_err := (\<lambda>path. Some EACCES)\<rparr>" "''/out.txt''"
      EACCES boot 1]
  by (simp add: boot_def kernel_ok_def fd_keys_def file_error_text_def)

subsection \<open>What the launch leaves alone\<close>

lemma stage_body_job:
  "stage_body k c pd f s = (fl, f', s') \<Longrightarrow> unchanged_job s s'"
  by (auto simp: stage_body_def unchanged_job_def sys_chdir_def sys_fork_def sys_close_def
      parent_branch_def handle_directory_error_def eprint_def Let_def
      split: if_splits option.splits sum.splits prod.splits)

lemma stage_step_job:
  "stage_step k li c lst f s = (fl, f', s') \<Longrightarrow> unchanged_job s s'"
  by (auto simp: stage_step_def unchanged_job_def sys_pipe_def sys_close_def eprint_def Let_def
      split: if_splits option.splits prod.splits dest!: stage_body_job)

lemma run_stages_job:
  "run_stages k li cs f s = (fl, f', s') \<Longrightarrow> unchanged_job s s'"
proof (induction cs arbitrary: f s)
  case Nil
  then show ?case by (simp add: unchanged_job_def)
next
  case (Cons c cs)
  obtain fl1 f1 s1 where st: "stage_step k li c (cs = []) f s = (fl1, f1, s1)"
    by (cases "stage_step k li c (cs = []) f s") auto
  have j1: "unchanged_job s s1" using st by (rule stage_step_job)
  show ?case
  proof (cases fl1)
    case Next
    with Cons.prems st have "run_stages k li cs f1 s1 = (fl, f', s')" by simp
    then have "unchanged_job s1 s'" by (rule Cons.IH)
    with j1 show ?thesis by (simp add: unchanged_job_def)
  next
    case Break
    with Cons.prems st j1 show ?thesis by simp
  next
    case Exit
    with Cons.prems st j1 show ?thesis by simp
  qed
qed

lemma open_input_cases:
  assumes "open_input k cmd s = (r, s1)"
  shows "(\<exists>e. r = Inl e \<and> s1 = s) \<or>
         (r = Inr STDIN_FILENO \<and> s1 = s \<and> rstdin cmd = None) \<or>
         (\<exists>path. rstdin cmd = Some path \<and> r = Inr (fd_lowest (fds s)) \<and>
            s1 = s\<lparr>fds := (fd_lowest (fds s), File_read path) # fds s\<rparr>)"
  using assms
  by (auto simp: open_input_def sys_open_def Let_def split: option.splits)

lemma create_output_cases:
  assumes "create_output k cmd s = (r, s1)"
  shows "(\<exists>e. r = Inl e \<and> s1 = s) \<or>
         (r = Inr STDOUT_FILENO \<and> s1 = s \<and> rstdout cmd = None) \<or>
         (\<exists>path. rstdout cmd = Some path \<and> r = Inr (fd_lowest (fds s)) \<and>
            s1 = s\<lparr>fds := (fd_lowest (fds s), File_write path) # fds s\<rparr>)"
  using assms
  by (auto simp: create_output_def sys_creat_def Let_def split: option.splits)

lemma launch_cases [consumes 1, case_names input_failed output_failed stages]:
  assumes "launch k cmd s = (oc, f, s')"
  obtains
    (input_failed) e where "open_input k cmd s = (Inl e, s)" and "oc = Input_failed"
      and "s' = handle_file_error e s" and "f = first_frame k cmd STDOUT_FILENO"
  | (output_failed) li s1 e where "open_input k cmd s = (Inr li, s1)"
      and "create_output k cmd s1 = (Inl e, s1)" and "oc = Output_failed"
      and "s' = (if li \<noteq> STDIN_FILENO then sys_close li (handle_file_error e s1)
                 else handle_file_error e s1)"
      and "f = first_frame k cmd STDOUT_FILENO"
  | (stages) li s1 out s2 fl where "open_input k cmd s = (Inr li, s1)"
      and "create_output k cmd s1 = (Inr out, s2)"
      and "run_stages k li (pgm cmd) (first_frame k cmd out) s2 = (fl, f, s')"
      and "oc = (case fl of Next \<Rightarrow> Completed | Break \<Rightarrow> Pipe_failed | Exit \<Rightarrow> Exit_called)"
proof -
  obtain r1 s1 where oi: "open_input k cmd s = (r1, s1)"
    by (cases "open_input k cmd s") auto
  show thesis
  proof (cases r1)
    case (Inl e)
    with oi open_input_cases [OF oi] have "s1 = s" by auto
    with oi Inl assms show thesis
      by (intro input_failed [of e]) (simp_all add: launch_def)
  next
    case (Inr li)
    obtain r2 s2 where co: "create_output k cmd s1 = (r2, s2)"
      by (cases "create_output k cmd s1") auto
    show thesis
    proof (cases r2)
      case (Inl e)
      with co create_output_cases [OF co] have "s2 = s1" by auto
      with oi co Inr Inl assms show thesis
        by (intro output_failed [of li s1 e]) (simp_all add: launch_def Let_def)
    next
      case r2: (Inr out)
      obtain fl f1 s3 where rs:
        "run_stages k li (pgm cmd) (first_frame k cmd out) s2 = (fl, f1, s3)"
        by (cases "run_stages k li (pgm cmd) (first_frame k cmd out) s2") auto
      with oi co Inr r2 assms have "f1 = f \<and> s3 = s' \<and>
          oc = (case fl of Next \<Rightarrow> Completed | Break \<Rightarrow> Pipe_failed | Exit \<Rightarrow> Exit_called)"
        by (cases fl) (simp_all add: launch_def)
      with oi co Inr r2 rs show thesis
        by (intro stages [of li s1 out s2 fl]) simp_all
    qed
  qed
qed

lemma open_input_job: "open_input k cmd s = (r, s1) \<Longrightarrow> unchanged_job s s1"
  by (drule open_input_cases) (auto simp: unchanged_job_def)

lemma create_output_job: "create_output k cmd s = (r, s1) \<Longrightarrow> unchanged_job s s1"
  by (drule create_output_cases) (auto simp: unchanged_job_def)

lemma unchanged_job_trans:
  "unchanged_job s s1 \<Longrightarrow> unchanged_job s1 s2 \<Longrightarrow> unchanged_job s s2"
  by (simp add: unchanged_job_def)

lemma launch_job:
  assumes "launch k cmd s = (oc, f, s')"
  shows "unchanged_job s s'"
  using assms
proof (cases rule: launch_cases)
  case (input_failed e)
  then show ?thesis by (simp add: unchanged_job_def handle_file_error_def eprint_def)
next
  case (output_failed li s1 e)
  then show ?thesis
    using open_input_job [of k cmd s "Inr li" s1]
    by (simp add: unchanged_job_def handle_file_error_def eprint_def sys_close_def)
next
  case (stages li s1 out s2 fl)
  then show ?thesis
    using open_input_job [of k cmd s "Inr li" s1] create_output_job [of k cmd s1 "Inr out" s2]
      run_stages_job [of k li "pgm cmd" "first_frame k cmd out" s2 fl f s']
    by (simp add: unchanged_job_def)
qed

subsection \<open>What the wait and the handler leave alone\<close>

lemma wait_keeps_trans: "wait_keeps s s1 \<Longrightarrow> wait_keeps s1 s2 \<Longrightarrow> wait_keeps s s2"
  by (simp add: wait_keeps_def)

lemma sys_kill_keeps: "wait_keeps s (sys_kill p s)"
  by (simp add: wait_keeps_def sys_kill_def Let_def)

lemma kill_from_keeps: "wait_keeps s (kill_from i s)"
proof (induction i s rule: kill_from.induct)
  case (1 i s)
  show ?case
  proof (cases "i < numChildren s \<and> exit_status s = None")
    case True
    then have "kill_from i s = kill_from (Suc i) (sys_kill (children s ! i) s)"
      by (subst kill_from.simps) simp
    moreover have "wait_keeps (sys_kill (children s ! i) s)
        (kill_from (Suc i) (sys_kill (children s ! i) s))"
      by (rule "1.IH" [OF True])
    ultimately show ?thesis using wait_keeps_trans [OF sys_kill_keeps] by simp
  next
    case False
    have "kill_from i s = s" by (subst kill_from.simps) (simp only: False if_False)
    then show ?thesis by (simp add: wait_keeps_def)
  qed
qed

lemma kill_upto_keeps: "wait_keeps s (kill_upto k w i s)"
proof (induction k w i s rule: kill_upto.induct)
  case (1 k w i s)
  show ?case
  proof (cases "i < w \<and> exit_status s = None")
    case True
    then have "kill_upto k w i s = kill_upto k w (Suc i) (sys_kill (children_at k s i) s)"
      by (subst kill_upto.simps) simp
    moreover have "wait_keeps (sys_kill (children_at k s i) s)
        (kill_upto k w (Suc i) (sys_kill (children_at k s i) s))"
      by (rule "1.IH" [OF True])
    ultimately show ?thesis using wait_keeps_trans [OF sys_kill_keeps] by simp
  next
    case False
    have "kill_upto k w i s = s" by (subst kill_upto.simps) (simp only: False if_False)
    then show ?thesis by (simp add: wait_keeps_def)
  qed
qed

lemma deliver_SIGINT_keeps: "wait_keeps s (deliver_SIGINT k s)"
proof (cases "sigint s")
  case SIG_DFL
  then show ?thesis by (simp add: deliver_SIGINT_def wait_keeps_def)
next
  case SIG_IGN
  then show ?thesis by (simp add: deliver_SIGINT_def wait_keeps_def)
next
  case SIG_KillChildrenOnSignal
  then show ?thesis
    using kill_from_keeps [of s 0] by (simp add: deliver_SIGINT_def KillChildrenOnSignal_def)
next
  case SIG_KillChildren
  then show ?thesis
    using kill_upto_keeps [of s k pids_per_pointer 0]
    by (simp add: deliver_SIGINT_def KillChildren_def Let_def oprint_def wait_keeps_def)
qed

lemma wait_entry_keeps: "wait_keeps s (wait_entry k p s)"
proof -
  let ?s0 = "s\<lparr>waited := waited s @ [p], clock := Suc (clock s)\<rparr>"
  have "wait_keeps s ?s0" by (simp add: wait_keeps_def)
  from this wait_keeps_trans [OF this deliver_SIGINT_keeps [of ?s0 k]]
  show ?thesis by (simp add: wait_entry_def Let_def)
qed

lemma sys_waitpid_cases [consumes 1, case_names stuck returned]:
  assumes "sys_waitpid k p s = (b, s')"
  obtains
    (stuck) "\<not> b" and "s' = wait_entry k p s"
  | (returned) ts where "b" and "exit_status (wait_entry k p s) = None"
      and "s' = (wait_entry k p s)\<lparr>terminated := terminated (wait_entry k p s) @ ts\<rparr>"
proof -
  let ?s1 = "wait_entry k p s"
  have here: "?s1 = ?s1\<lparr>terminated := terminated ?s1 @ []\<rparr>" by simp
  show thesis
  proof (cases "exit_status ?s1 = None")
    case False
    then have "sys_waitpid k p s = (False, ?s1)" by (simp add: sys_waitpid_def Let_def)
    with assms have "\<not> b" and "s' = ?s1" by simp_all
    then show thesis by (rule stuck)
  next
    case e: True
    show thesis
    proof (cases "waits_for_any p ?s1")
      case any: True
      show thesis
      proof (cases "list_all (finishes k) (alive ?s1)")
        case True
        with e any have "sys_waitpid k p s =
            (True, ?s1\<lparr>terminated := terminated ?s1 @ alive ?s1\<rparr>)"
          by (simp add: sys_waitpid_def Let_def)
        with assms have "b" and "s' = ?s1\<lparr>terminated := terminated ?s1 @ alive ?s1\<rparr>"
          by simp_all
        from this(1) e this(2) show thesis by (rule returned)
      next
        case False
        with e any have "sys_waitpid k p s = (False, ?s1)" by (simp add: sys_waitpid_def Let_def)
        with assms have "\<not> b" and "s' = ?s1" by simp_all
        then show thesis by (rule stuck)
      qed
    next
      case one: False
      show thesis
      proof (cases "p \<in> set (alive ?s1)")
        case al: True
        show thesis
        proof (cases "finishes k p")
          case True
          with e one al have "sys_waitpid k p s =
              (True, ?s1\<lparr>terminated := terminated ?s1 @ [p]\<rparr>)"
            by (simp add: sys_waitpid_def Let_def)
          with assms have "b" and "s' = ?s1\<lparr>terminated := terminated ?s1 @ [p]\<rparr>"
            by simp_all
          from this(1) e this(2) show thesis by (rule returned)
        next
          case False
          with e one al have "sys_waitpid k p s = (False, ?s1)"
            by (simp add: sys_waitpid_def Let_def)
          with assms have "\<not> b" and "s' = ?s1" by simp_all
          then show thesis by (rule stuck)
        qed
      next
        case False
        with e one have "sys_waitpid k p s = (True, ?s1)" by (simp add: sys_waitpid_def Let_def)
        with assms here have "b" and "s' = ?s1\<lparr>terminated := terminated ?s1 @ []\<rparr>"
          by simp_all
        from this(1) e this(2) show thesis by (rule returned)
      qed
    qed
  qed
qed

lemma sys_waitpid_keeps:
  assumes "sys_waitpid k p s = (b, s')"
  shows "wait_keeps s s'"
  using assms wait_entry_keeps [of s k p]
  by (cases rule: sys_waitpid_cases) (auto simp: wait_keeps_def)

lemma wait_from_keeps:
  assumes "wait_from k i f s = (b, s')"
  shows "wait_keeps s s'"
  using assms
proof (induction "command_counter f - i" arbitrary: i s)
  case 0
  then show ?case by (subst (asm) wait_from.simps) (simp add: wait_keeps_def)
next
  case (Suc n)
  then have lt: "i < command_counter f" by simp
  obtain b1 s1 where sw: "sys_waitpid k (command_pids f ! i) s = (b1, s1)"
    by (cases "sys_waitpid k (command_pids f ! i) s") auto
  note k1 = sys_waitpid_keeps [OF sw]
  show ?case
  proof (cases b1)
    case True
    with Suc.prems lt sw have "wait_from k (Suc i) f s1 = (b, s')"
      by (subst (asm) wait_from.simps) simp
    moreover have "n = command_counter f - Suc i" using Suc.hyps(2) by simp
    ultimately have "wait_keeps s1 s'" by (rule Suc.hyps(1) [rotated])
    with k1 show ?thesis by (rule wait_keeps_trans)
  next
    case False
    with Suc.prems lt sw have "s' = s1" by (subst (asm) wait_from.simps) simp
    with k1 show ?thesis by simp
  qed
qed

lemma wait_from_none: "\<not> i < command_counter f \<Longrightarrow> wait_from k i f s = (True, s)"
  by (subst wait_from.simps) simp

lemma complete_keeps:
  assumes "complete k cmd f s = (b, s')"
  shows "fds s' = fds s" and "cwd s' = cwd s" and "procs s' = procs s"
    and "stderr_out s' = stderr_out s" and "sigchld s' = sigchld s"
    and "next_pid s' = next_pid s" and "own_pid s' = own_pid s"
proof -
  have "fds s' = fds s \<and> cwd s' = cwd s \<and> procs s' = procs s \<and>
        stderr_out s' = stderr_out s \<and> sigchld s' = sigchld s \<and>
        next_pid s' = next_pid s \<and> own_pid s' = own_pid s"
  proof (cases "background cmd")
    case True
    with assms show ?thesis by (simp add: complete_def)
  next
    case False
    obtain b1 s1 where w: "wait_from k 0 f (publish f s) = (b1, s1)"
      by (cases "wait_from k 0 f (publish f s)") auto
    from wait_from_keeps [OF w] have "wait_keeps (publish f s) s1" .
    with assms False w show ?thesis
      by (cases b1) (auto simp: complete_def wait_keeps_def publish_def unpublish_def)
  qed
  then show "fds s' = fds s" and "cwd s' = cwd s" and "procs s' = procs s"
    and "stderr_out s' = stderr_out s" and "sigchld s' = sigchld s"
    and "next_pid s' = next_pid s" and "own_pid s' = own_pid s" by simp_all
qed

lemma complete_empty:
  assumes "command_counter f = 0"
  shows "complete k cmd f s =
           (True, if background cmd then s
                  else s\<lparr>children := command_pids f, numChildren := 0, sigint := SIG_IGN\<rparr>)"
  using assms by (simp add: complete_def wait_from_none publish_def unpublish_def)

lemma snd_finish: "snd (finish oc r) = snd r"
  by (simp add: finish_def)

lemma RunCommand_launch:
  assumes "launch k cmd s = (oc, f, s1)"
  shows "RunCommand k r cmd s =
           (if oc = Completed \<or> oc = Pipe_failed then finish oc (complete k cmd f s1)
            else (oc, s1))"
  using assms by (cases oc) (simp_all add: RunCommand_def)

lemma RunCommand_keeps:
  assumes l: "launch k cmd s = (oc, f, s1)"
  shows "fds (snd (RunCommand k r cmd s)) = fds s1"
    and "cwd (snd (RunCommand k r cmd s)) = cwd s1"
    and "procs (snd (RunCommand k r cmd s)) = procs s1"
    and "stderr_out (snd (RunCommand k r cmd s)) = stderr_out s1"
    and "sigchld (snd (RunCommand k r cmd s)) = sigchld s1"
proof -
  obtain b s2 where c: "complete k cmd f s1 = (b, s2)"
    by (cases "complete k cmd f s1") auto
  note ck = complete_keeps [OF c]
  have "snd (RunCommand k r cmd s) = s2 \<or> snd (RunCommand k r cmd s) = s1"
    using c by (simp add: RunCommand_launch [OF l] snd_finish)
  with ck show "fds (snd (RunCommand k r cmd s)) = fds s1"
    and "cwd (snd (RunCommand k r cmd s)) = cwd s1"
    and "procs (snd (RunCommand k r cmd s)) = procs s1"
    and "stderr_out (snd (RunCommand k r cmd s)) = stderr_out s1"
    and "sigchld (snd (RunCommand k r cmd s)) = sigchld s1" by auto
qed

lemma RunCommand_sigchld: "sigchld (snd (RunCommand k r cmd s)) = sigchld s"
proof -
  obtain oc f s1 where l: "launch k cmd s = (oc, f, s1)" by (cases "launch k cmd s") auto
  from launch_job [OF l] have "sigchld s1 = sigchld s" by (simp add: unchanged_job_def)
  with RunCommand_keeps(5) [OF l] show ?thesis by simp
qed

lemma read_eval_sigchld: "sigchld (read_eval k input s) = sigchld s"
proof (induction k input s rule: read_eval.induct)
  case (1 k s)
  then show ?case by simp
next
  case (2 k rest s)
  then show ?case by simp
next
  case (3 k r cmd rest s)
  obtain oc s1 where rc: "RunCommand k r cmd s = (oc, s1)" by (cases "RunCommand k r cmd s") auto
  have "sigchld s1 = sigchld s" using RunCommand_sigchld [of k r cmd s] rc by simp
  then show ?case using 3 rc by (auto split: if_splits)
qed

subsection \<open>Background commands\<close>

text \<open>
  Claim C7. For a command with the background flag set, \<^verbatim>\<open>RunCommand\<close> publishes
  nothing (the globals \<open>children\<close> and \<open>numChildren\<close> are as before), waits for no
  process and leaves the dispositions alone; the child-termination signal, which
  \<^verbatim>\<open>main\<close> sets to ignored before the first line, stays ignored through every run of
  the read-eval loop.
\<close>

theorem background_publishes_nothing:
  assumes "background cmd"
  shows "children (snd (RunCommand k r cmd s)) = children s \<and>
         numChildren (snd (RunCommand k r cmd s)) = numChildren s \<and>
         waited (snd (RunCommand k r cmd s)) = waited s \<and>
         sigint (snd (RunCommand k r cmd s)) = sigint s \<and>
         sigchld (snd (RunCommand k r cmd s)) = sigchld s \<and>
         sigchld (main k input s) = SIG_IGN"
proof -
  obtain oc f s1 where l: "launch k cmd s = (oc, f, s1)" by (cases "launch k cmd s") auto
  have "snd (RunCommand k r cmd s) = s1"
    using l assms by (cases oc) (simp_all add: RunCommand_def complete_def finish_def)
  moreover have "unchanged_job s s1" using l by (rule launch_job)
  moreover have "sigchld (main k input s) = SIG_IGN"
    by (simp add: main_def read_eval_sigchld)
  ultimately show ?thesis by (simp add: unchanged_job_def)
qed

theorem background_publishes_nothing_witness:
  "background \<lparr>pgm = [Argv ''sleep'' [''100'']], rstdin = None, rstdout = None,
               background = True\<rparr> \<and>
   children (snd (RunCommand kernel_ok 1
     \<lparr>pgm = [Argv ''sleep'' [''100'']], rstdin = None, rstdout = None,
      background = True\<rparr> boot)) = [] \<and>
   numChildren (snd (RunCommand kernel_ok 1
     \<lparr>pgm = [Argv ''sleep'' [''100'']], rstdin = None, rstdout = None,
      background = True\<rparr> boot)) = 0 \<and>
   waited (snd (RunCommand kernel_ok 1
     \<lparr>pgm = [Argv ''sleep'' [''100'']], rstdin = None, rstdout = None,
      background = True\<rparr> boot)) = []"
  using background_publishes_nothing [of
      "\<lparr>pgm = [Argv ''sleep'' [''100'']], rstdin = None, rstdout = None,
        background = True\<rparr>" kernel_ok 1 boot "[]"]
  by (simp add: boot_def)

subsection \<open>The rounds of the loop, case by case\<close>

lemma parent_branch_eq:
  "parent_branch pd child f s =
     (f\<lparr>command_pids := (command_pids f)[curr_command_index f := child],
        child_out := (case pd of Some (r, w) \<Rightarrow> w | None \<Rightarrow> child_out f)\<rparr>,
      s\<lparr>fds := (if child_out f \<noteq> STDOUT_FILENO then fd_close (child_out f) else id)
                ((if child_in f \<noteq> STDIN_FILENO then fd_close (child_in f) else id) (fds s))\<rparr>)"
  by (cases pd) (auto simp: parent_branch_def sys_close_def Let_def)

lemma stage_body_cases [consumes 1, case_names exit cd_failed cd_done fork_failed forked]:
  assumes "stage_body k c pd f s = (fl, f', s')"
  obtains
    (exit) "prog c = ''exit''" and "fl = Exit" and "f' = f"
      and "s' = s\<lparr>exit_status := Some 0\<rparr>"
  | (cd_failed) e where "prog c = ''cd''" and "fl = Next"
      and "f' = f\<lparr>command_counter := 0\<rparr>"
      and "sys_chdir k (command1 c) s = (Some e, s)"
      and "s' = handle_directory_error e s"
  | (cd_done) d where "prog c = ''cd''" and "fl = Next"
      and "f' = f\<lparr>command_counter := 0\<rparr>"
      and "sys_chdir k (command1 c) s = (None, s\<lparr>cwd := d\<rparr>)"
      and "s' = s\<lparr>cwd := d\<rparr>"
  | (fork_failed) "prog c \<noteq> ''exit''" and "prog c \<noteq> ''cd''" and "fork_fails k (clock s)"
      and "fl = Next"
      and "(f', s') = parent_branch pd (- 1) f (s\<lparr>clock := Suc (clock s)\<rparr>)"
  | (forked) "prog c \<noteq> ''exit''" and "prog c \<noteq> ''cd''" and "\<not> fork_fails k (clock s)"
      and "fl = Next"
      and "(f', s') = parent_branch pd (next_pid s) f
              (s\<lparr>clock := Suc (clock s), next_pid := next_pid s + 1,
                 procs := procs s @
                   [child_branch k pd (child_in f) (child_out f) c (next_pid s)
                      (s\<lparr>clock := Suc (clock s), next_pid := next_pid s + 1\<rparr>)]\<rparr>)"
proof (cases "prog c = ''exit''")
  case True
  with assms show thesis by (intro exit) (simp_all add: stage_body_def)
next
  case ne: False
  show thesis
  proof (cases "prog c = ''cd''")
    case True
    show thesis
    proof (cases "command1 c")
      case None
      with assms True ne show thesis
        by (intro cd_failed [of EFAULT]) (auto simp: stage_body_def sys_chdir_def)
    next
      case (Some path)
      show thesis
      proof (cases "chdir_to k (cwd s) path")
        case (Inl e)
        with assms True ne Some show thesis
          by (intro cd_failed [of e]) (auto simp: stage_body_def sys_chdir_def)
      next
        case (Inr d)
        with assms True ne Some show thesis
          by (intro cd_done [of d]) (auto simp: stage_body_def sys_chdir_def)
      qed
    qed
  next
    case nc: False
    show thesis
    proof (cases "fork_fails k (clock s)")
      case True
      with assms ne nc show thesis
        by (intro fork_failed)
          (auto simp: stage_body_def sys_fork_def split: prod.splits)
    next
      case False
      with assms ne nc show thesis
        by (intro forked)
          (auto simp: stage_body_def sys_fork_def split: prod.splits)
    qed
  qed
qed

lemma stage_step_cases [consumes 1, case_names pipe_failed piped last]:
  assumes "stage_step k li c lst f s = (fl, f', s')"
  obtains
    (pipe_failed) "\<not> lst" and "pipe_fails k (clock s)" and "fl = Break" and "f' = f"
      and "s' = s\<lparr>clock := Suc (clock s), stderr_out := stderr_out s @ [''Pipe failed''],
                 fds := (if child_out f \<noteq> STDOUT_FILENO then fd_close (child_out f) else id)
                          (fds s)\<rparr>"
  | (piped) pd s1 f1 where "\<not> lst" and "sys_pipe k s = (Some pd, s1)"
      and "stage_body k c (Some pd) (f\<lparr>child_in := fst pd\<rparr>) s1 = (fl, f1, s')"
      and "f' = f1\<lparr>curr_command_index := Suc (curr_command_index f1)\<rparr>"
  | (last) f1 where "lst"
      and "stage_body k c None (f\<lparr>child_in := li\<rparr>) s = (fl, f1, s')"
      and "f' = f1\<lparr>curr_command_index := Suc (curr_command_index f1)\<rparr>"
proof (cases lst)
  case True
  with assms show thesis
    by (cases "stage_body k c None (f\<lparr>child_in := li\<rparr>) s")
      (auto simp: stage_step_def intro: last)
next
  case nl: False
  show thesis
  proof (cases "sys_pipe k s")
    case (Pair r s1)
    show thesis
    proof (cases r)
      case None
      with Pair have "pipe_fails k (clock s)" and "s1 = s\<lparr>clock := Suc (clock s)\<rparr>"
        by (auto simp: sys_pipe_def Let_def split: if_splits)
      with assms nl Pair None show thesis
        by (intro pipe_failed)
          (auto simp: stage_step_def Let_def eprint_def sys_close_def)
    next
      case (Some pd)
      with assms nl Pair show thesis
        by (cases "stage_body k c (Some pd) (f\<lparr>child_in := fst pd\<rparr>) s1")
          (auto simp: stage_step_def intro: piped)
    qed
  qed
qed

lemma run_stages_Cons_cases [consumes 1, case_names go stop]:
  assumes "run_stages k li (c # cs) f s = (fl, f', s')"
  obtains
    (go) f1 s1 where "stage_step k li c (cs = []) f s = (Next, f1, s1)"
      and "run_stages k li cs f1 s1 = (fl, f', s')"
  | (stop) "stage_step k li c (cs = []) f s = (fl, f', s')" and "fl \<noteq> Next"
proof (cases "stage_step k li c (cs = []) f s")
  case (fields fl1 f1 s1)
  with assms show thesis
    by (cases fl1) (auto intro: go stop)
qed

subsection \<open>The processes a command spawns\<close>

lemma run_stages_spawn_inv:
  assumes run: "run_stages k li cs f s = (fl, f', s')"
    and inv: "I f s"
    and step: "\<And>c lst f s fl f' s'. c \<in> set cs \<Longrightarrow>
       stage_step k li c lst f s = (fl, f', s') \<Longrightarrow> I f s \<Longrightarrow>
       I f' s' \<and> (\<exists>ps. procs s' = procs s @ ps \<and> (\<forall>p\<in>set ps. Q p))"
  shows "I f' s' \<and> (\<exists>ps. procs s' = procs s @ ps \<and> (\<forall>p\<in>set ps. Q p))"
  using run inv step
proof (induction cs arbitrary: f s)
  case Nil
  then show ?case by simp
next
  case (Cons c cs)
  from Cons.prems(1) show ?case
  proof (cases rule: run_stages_Cons_cases)
    case (go f1 s1)
    from Cons.prems(3) [OF _ go(1) Cons.prems(2)]
    obtain ps1 where i1: "I f1 s1" and p1: "procs s1 = procs s @ ps1"
      and q1: "\<forall>p\<in>set ps1. Q p" by auto
    have step': "\<And>c lst f s fl f' s'. c \<in> set cs \<Longrightarrow>
       stage_step k li c lst f s = (fl, f', s') \<Longrightarrow> I f s \<Longrightarrow>
       I f' s' \<and> (\<exists>ps. procs s' = procs s @ ps \<and> (\<forall>p\<in>set ps. Q p))"
      using Cons.prems(3) by (meson list.set_intros(2))
    have "I f' s' \<and> (\<exists>ps. procs s' = procs s1 @ ps \<and> (\<forall>p\<in>set ps. Q p))"
      by (rule Cons.IH [OF go(2) i1 step'])
    then obtain ps2 where i2: "I f' s'" and p2: "procs s' = procs s1 @ ps2"
      and q2: "\<forall>p\<in>set ps2. Q p" by auto
    from p1 p2 q1 q2 have "procs s' = procs s @ (ps1 @ ps2) \<and> (\<forall>p\<in>set (ps1 @ ps2). Q p)"
      by auto
    with i2 show ?thesis by blast
  next
    case stop
    from Cons.prems(3) [OF _ stop(1) Cons.prems(2)] show ?thesis by simp
  qed
qed

lemma child_branch_facts:
  assumes "p = child_branch k pd ci co c pid s"
  shows "p_pid p = pid" and "p_command p = c" and "p_sigint p = SIG_IGN"
    and "p_cwd p = cwd s"
    and "execvp_err k (prog c) = None \<Longrightarrow> p_replaced p \<and> p_writes p = [] \<and> p_exit p = None"
    and "execvp_err k (prog c) = Some e \<Longrightarrow>
           \<not> p_replaced p \<and> p_exit p = Some 0 \<and>
           p_writes p = [(map_of (p_fds p) STDERR_FILENO, command_error_text e (prog c))]"
  using assms
  by (auto simp: child_branch_def handle_command_def child_exit_def Let_def
      split: option.splits)

lemma child_branch_cong:
  "fds s0 = fds s \<Longrightarrow> cwd s0 = cwd s \<Longrightarrow>
   child_branch k pd ci co c pid s0 = child_branch k pd ci co c pid s"
  by (simp add: child_branch_def)

lemma stage_body_child:
  assumes "stage_body k c pd f s = (fl, f', s')"
  shows "\<exists>ps. procs s' = procs s @ ps \<and>
           (\<forall>p\<in>set ps. \<exists>pid. p = child_branch k pd (child_in f) (child_out f) c pid s)"
  using assms
proof (cases rule: stage_body_cases)
  case exit
  then show ?thesis by simp
next
  case (cd_failed e)
  then show ?thesis by (simp add: handle_directory_error_def eprint_def)
next
  case (cd_done d)
  then show ?thesis by simp
next
  case fork_failed
  then show ?thesis by (simp add: parent_branch_eq)
next
  case forked
  have "child_branch k pd (child_in f) (child_out f) c (next_pid s)
          (s\<lparr>clock := Suc (clock s), next_pid := next_pid s + 1\<rparr>) =
        child_branch k pd (child_in f) (child_out f) c (next_pid s) s"
    by (rule child_branch_cong) simp_all
  with forked show ?thesis by (auto simp: parent_branch_eq)
qed

lemma sys_pipe_Some:
  assumes "sys_pipe k s = (Some pd, s1)"
  shows "pd = (fd_lowest (fds s), fd_lowest ((fd_lowest (fds s), Pipe_read (clock s)) # fds s))"
    and "s1 = s\<lparr>fds := (snd pd, Pipe_write (clock s)) # (fst pd, Pipe_read (clock s)) # fds s,
                 clock := Suc (clock s)\<rparr>"
  using assms by (auto simp: sys_pipe_def Let_def split: if_splits)

lemma stage_step_child:
  assumes "stage_step k li c lst f s = (fl, f', s')"
  shows "\<exists>ps. procs s' = procs s @ ps \<and>
           (\<forall>p\<in>set ps. \<exists>pd ci pid s0. p = child_branch k pd ci (child_out f) c pid s0 \<and>
              cwd s0 = cwd s)"
  using assms
proof (cases rule: stage_step_cases)
  case pipe_failed
  then show ?thesis by simp
next
  case (piped pd s1 f1)
  from sys_pipe_Some(2) [OF piped(2)] have "procs s1 = procs s" and "cwd s1 = cwd s"
    by simp_all
  with stage_body_child [OF piped(3)] show ?thesis
    by simp metis
next
  case (last f1)
  with stage_body_child [OF last(2)] show ?thesis
    by simp metis
qed

lemma RunCommand_procs:
  assumes "launch k cmd s = (oc, f, s1)"
  shows "procs (snd (RunCommand k r cmd s)) = procs s1"
  using assms by (rule RunCommand_keeps(3))

lemma spawned_eq:
  assumes "launch k cmd s = (oc, f, s1)" and "procs s1 = procs s @ ps"
  shows "spawned k r cmd s = ps"
  using assms RunCommand_procs [OF assms(1), of r] by (simp add: spawned_def)

lemma launch_spawn_inv:
  assumes l: "launch k cmd s = (oc, f', s')"
    and init: "\<And>li s1 out s2. open_input k cmd s = (Inr li, s1) \<Longrightarrow>
        create_output k cmd s1 = (Inr out, s2) \<Longrightarrow> I li (first_frame k cmd out) s2"
    and step: "\<And>li c lst f s0 fl f1 s1. c \<in> set (pgm cmd) \<Longrightarrow>
        stage_step k li c lst f s0 = (fl, f1, s1) \<Longrightarrow> I li f s0 \<Longrightarrow>
        I li f1 s1 \<and> (\<exists>ps. procs s1 = procs s0 @ ps \<and> (\<forall>p\<in>set ps. Q p))"
  shows "\<forall>p\<in>set (spawned k r cmd s). Q p"
  using l
proof (cases rule: launch_cases)
  case (input_failed e)
  then have "procs s' = procs s @ []" by (simp add: handle_file_error_def eprint_def)
  from spawned_eq [OF l this] show ?thesis by simp
next
  case (output_failed li s1 e)
  with open_input_cases [OF output_failed(1)] have "procs s' = procs s @ []"
    by (auto simp: handle_file_error_def eprint_def sys_close_def)
  from spawned_eq [OF l this] show ?thesis by simp
next
  case (stages li s1 out s2 fl)
  have p2: "procs s2 = procs s"
    using open_input_cases [OF stages(1)] create_output_cases [OF stages(2)] by auto
  have "I li f' s' \<and> (\<exists>ps. procs s' = procs s2 @ ps \<and> (\<forall>p\<in>set ps. Q p))"
    by (rule run_stages_spawn_inv [OF stages(3), where I = "I li" and Q = Q])
      (use init [OF stages(1) stages(2)] step in blast)+
  then obtain ps where "procs s' = procs s @ ps" and q: "\<forall>p\<in>set ps. Q p"
    using p2 by auto
  from spawned_eq [OF l this(1)] q show ?thesis by simp
qed


subsection \<open>The interrupt signal in the children\<close>

lemma spawned_children:
  "\<forall>p\<in>set (spawned k r cmd s).
     \<exists>pd ci co pid s0. p = child_branch k pd ci co (p_command p) pid s0"
proof -
  obtain oc f s1 where l: "launch k cmd s = (oc, f, s1)" by (cases "launch k cmd s") auto
  show ?thesis
  proof (rule launch_spawn_inv [OF l, where I = "\<lambda>li f s. True"])
    fix li c lst f s0 fl f1 s1
    assume "stage_step k li c lst f s0 = (fl, f1, s1)"
    from stage_step_child [OF this]
    obtain ps where ps: "procs s1 = procs s0 @ ps"
      and ch: "\<forall>p\<in>set ps. \<exists>pd ci pid s0'. p = child_branch k pd ci (child_out f) c pid s0'"
      by blast
    have "\<forall>p\<in>set ps. \<exists>pd ci co pid s0'. p = child_branch k pd ci co (p_command p) pid s0'"
    proof
      fix p assume "p \<in> set ps"
      with ch obtain pd ci pid s0' where p: "p = child_branch k pd ci (child_out f) c pid s0'"
        by blast
      from child_branch_facts(2) [OF p] p
      show "\<exists>pd ci co pid s0'. p = child_branch k pd ci co (p_command p) pid s0'"
        by metis
    qed
    with ps show "True \<and> (\<exists>ps. procs s1 = procs s0 @ ps \<and>
        (\<forall>p\<in>set ps. \<exists>pd ci co pid s0'. p = child_branch k pd ci co (p_command p) pid s0'))"
      by blast
  qed simp
qed

subsection \<open>A stage that cannot be executed\<close>

lemma map_of_fd_close: "map_of (fd_close n t) m = (if m = n then None else map_of t m)"
  by (induction t) (auto simp: fd_close_def)

lemma map_of_fd_dup2: "m \<noteq> new \<Longrightarrow> map_of (fd_dup2 old new t) m = map_of t m"
  by (auto simp: fd_dup2_def map_of_fd_close split: option.splits)

lemma fd_lowest_not_open: "map_of t m = Some ob \<Longrightarrow> fd_lowest t \<noteq> m"
  using fd_lowest_fresh [of t] by (auto simp: fd_keys_def dest!: map_of_SomeD) (metis fst_conv image_eqI)

lemma child_branch_stderr:
  assumes "map_of (fds s) STDERR_FILENO = Some ob" and "ci \<noteq> STDERR_FILENO"
    and "co \<noteq> STDERR_FILENO" and "\<And>r w. pd = Some (r, w) \<Longrightarrow> w \<noteq> STDERR_FILENO"
  shows "map_of (p_fds (child_branch k pd ci co c pid s)) STDERR_FILENO = Some ob"
proof -
  have "p_fds (child_branch k pd ci co c pid s) =
      (let t0 = fds s;
          t1 = (case pd of
                  Some (r, w) \<Rightarrow> if w \<noteq> STDOUT_FILENO then fd_close w t0 else t0
                | None \<Rightarrow> t0);
          t2 = (if ci \<noteq> STDIN_FILENO
                then fd_close ci (fd_dup2 ci STDIN_FILENO t1) else t1)
       in (if co \<noteq> STDOUT_FILENO
                then fd_close co (fd_dup2 co STDOUT_FILENO t2) else t2))"
    by (simp add: child_branch_def handle_command_def child_exit_def Let_def
        split: option.splits)
  then show ?thesis
    using assms by (cases pd) (auto simp: Let_def map_of_fd_close map_of_fd_dup2)
qed

lemma stage_body_stderr:
  assumes sb: "stage_body k c pd f s = (fl, f', s')"
    and open2: "map_of (fds s) STDERR_FILENO = Some ob"
    and ci: "child_in f \<noteq> STDERR_FILENO" and co: "child_out f \<noteq> STDERR_FILENO"
    and w: "\<And>r w. pd = Some (r, w) \<Longrightarrow> w \<noteq> STDERR_FILENO"
  shows "map_of (fds s') STDERR_FILENO = Some ob \<and> child_out f' \<noteq> STDERR_FILENO \<and>
         (\<exists>ps. procs s' = procs s @ ps \<and>
            (\<forall>p\<in>set ps. map_of (p_fds p) STDERR_FILENO = Some ob))"
proof -
  have kids: "\<exists>ps. procs s' = procs s @ ps \<and>
            (\<forall>p\<in>set ps. map_of (p_fds p) STDERR_FILENO = Some ob)"
    using stage_body_child [OF sb] child_branch_stderr [OF open2 ci co w] by fastforce
  have "map_of (fds s') STDERR_FILENO = Some ob \<and> child_out f' \<noteq> STDERR_FILENO"
    using sb
  proof (cases rule: stage_body_cases)
    case exit
    with open2 co show ?thesis by simp
  next
    case (cd_failed e)
    with open2 co show ?thesis by (simp add: handle_directory_error_def eprint_def)
  next
    case (cd_done d)
    with open2 co show ?thesis by simp
  next
    case fork_failed
    with open2 co ci w show ?thesis
      by (cases pd) (auto simp: parent_branch_eq map_of_fd_close)
  next
    case forked
    with open2 co ci w show ?thesis
      by (cases pd) (auto simp: parent_branch_eq map_of_fd_close)
  qed
  with kids show ?thesis by simp
qed

lemma stage_step_stderr:
  assumes st: "stage_step k li c lst f s = (fl, f', s')" and inv: "stderr_kept ob li f s"
  shows "stderr_kept ob li f' s' \<and>
         (\<exists>ps. procs s' = procs s @ ps \<and>
            (\<forall>p\<in>set ps. map_of (p_fds p) STDERR_FILENO = Some ob))"
  using st
proof (cases rule: stage_step_cases)
  case pipe_failed
  with inv show ?thesis by (auto simp: stderr_kept_def map_of_fd_close)
next
  case (piped pd s1 f1)
  note pp = sys_pipe_Some [OF piped(2)]
  have open2: "map_of (fds s) STDERR_FILENO = Some ob" using inv by (simp add: stderr_kept_def)
  have r: "fst pd \<noteq> STDERR_FILENO" using pp(1) fd_lowest_not_open [OF open2] by simp
  have "map_of ((fst pd, Pipe_read (clock s)) # fds s) STDERR_FILENO = Some ob"
    using open2 r by simp
  from fd_lowest_not_open [OF this] have w: "snd pd \<noteq> STDERR_FILENO" using pp(1) by simp
  have open2': "map_of (fds s1) STDERR_FILENO = Some ob"
    using pp(2) open2 r w by simp
  have "map_of (fds s') STDERR_FILENO = Some ob \<and> child_out f1 \<noteq> STDERR_FILENO \<and>
         (\<exists>ps. procs s' = procs s1 @ ps \<and>
            (\<forall>p\<in>set ps. map_of (p_fds p) STDERR_FILENO = Some ob))"
    using inv r w by (intro stage_body_stderr [OF piped(3) open2']) (auto simp: stderr_kept_def)
  moreover have "procs s1 = procs s" using pp(2) by simp
  ultimately show ?thesis using inv piped(4) by (simp add: stderr_kept_def)
next
  case (last f1)
  have "map_of (fds s') STDERR_FILENO = Some ob \<and> child_out f1 \<noteq> STDERR_FILENO \<and>
         (\<exists>ps. procs s' = procs s @ ps \<and>
            (\<forall>p\<in>set ps. map_of (p_fds p) STDERR_FILENO = Some ob))"
    using inv by (intro stage_body_stderr [OF last(2)]) (auto simp: stderr_kept_def)
  then show ?thesis using inv last(3) by (simp add: stderr_kept_def)
qed

lemma redirections_stderr:
  assumes "open_input k cmd s = (Inr li, s1)" and "create_output k cmd s1 = (Inr out, s2)"
    and "map_of (fds s) STDERR_FILENO = Some ob"
  shows "stderr_kept ob li (first_frame k cmd out) s2"
proof -
  have 1: "li \<noteq> STDERR_FILENO \<and> map_of (fds s1) STDERR_FILENO = Some ob"
    using open_input_cases [OF assms(1)] assms(3) fd_lowest_not_open [OF assms(3)] by auto
  then have "out \<noteq> STDERR_FILENO \<and> map_of (fds s2) STDERR_FILENO = Some ob"
    using create_output_cases [OF assms(2)] fd_lowest_not_open [of "fds s1" STDERR_FILENO ob]
    by auto
  with 1 show ?thesis by (simp add: stderr_kept_def first_frame_def)
qed


lemma spawned_stderr:
  assumes "map_of (fds s) STDERR_FILENO = Some ob"
  shows "\<forall>p\<in>set (spawned k r cmd s). map_of (p_fds p) STDERR_FILENO = Some ob"
proof -
  obtain oc f s1 where l: "launch k cmd s = (oc, f, s1)" by (cases "launch k cmd s") auto
  show ?thesis
    by (rule launch_spawn_inv [OF l, where I = "stderr_kept ob"])
      (use assms redirections_stderr stage_step_stderr in blast)+
qed

subsection \<open>Commands that meet no failure\<close>

lemma stage_body_commands:
  assumes sb: "stage_body k c pd f s = (fl, f', s')"
    and nf: "\<not> fork_fails k (clock s)" and ne: "prog c \<noteq> ''exit''"
  shows "fl = Next \<and>
         map p_command (procs s') =
           map p_command (procs s) @ (if prog c = ''cd'' then [] else [c])"
  using sb
proof (cases rule: stage_body_cases)
  case exit
  with ne show ?thesis by simp
next
  case (cd_failed e)
  then show ?thesis by (simp add: handle_directory_error_def eprint_def)
next
  case (cd_done d)
  then show ?thesis by simp
next
  case fork_failed
  with nf show ?thesis by simp
next
  case forked
  then show ?thesis
    using child_branch_facts(2) [OF refl, of k pd "child_in f" "child_out f" c "next_pid s"]
    by (simp add: parent_branch_eq)
qed

lemma stage_step_commands:
  assumes st: "stage_step k li c lst f s = (fl, f', s')"
    and np: "\<forall>t. \<not> pipe_fails k t" and nf: "\<forall>t. \<not> fork_fails k t"
    and ne: "prog c \<noteq> ''exit''"
  shows "fl = Next \<and>
         map p_command (procs s') =
           map p_command (procs s) @ (if prog c = ''cd'' then [] else [c])"
  using st
proof (cases rule: stage_step_cases)
  case pipe_failed
  with np show ?thesis by simp
next
  case (piped pd s1 f1)
  have "procs s1 = procs s" using sys_pipe_Some(2) [OF piped(2)] by simp
  with stage_body_commands [OF piped(3) _ ne] nf show ?thesis by simp
next
  case (last f1)
  with stage_body_commands [OF last(2) _ ne] nf show ?thesis by simp
qed

lemma run_stages_commands:
  assumes np: "\<forall>t. \<not> pipe_fails k t" and nf: "\<forall>t. \<not> fork_fails k t"
    and ne: "\<forall>c\<in>set cs. prog c \<noteq> ''exit''"
  shows "\<exists>f' s'. run_stages k li cs f s = (Next, f', s') \<and>
           map p_command (procs s') =
             map p_command (procs s) @ filter (\<lambda>c. prog c \<noteq> ''cd'') cs"
  using ne
proof (induction cs arbitrary: f s)
  case Nil
  then show ?case by simp
next
  case (Cons c cs)
  obtain fl f1 s1 where st: "stage_step k li c (cs = []) f s = (fl, f1, s1)"
    by (cases "stage_step k li c (cs = []) f s") auto
  from stage_step_commands [OF st np nf] Cons.prems
  have fl: "fl = Next" and p1: "map p_command (procs s1) =
           map p_command (procs s) @ (if prog c = ''cd'' then [] else [c])" by auto
  from Cons.IH [of f1 s1] Cons.prems
  obtain f' s' where rs: "run_stages k li cs f1 s1 = (Next, f', s')"
    and p2: "map p_command (procs s') =
             map p_command (procs s1) @ filter (\<lambda>c. prog c \<noteq> ''cd'') cs" by auto
  have "run_stages k li (c # cs) f s = (Next, f', s')" using st fl rs by simp
  moreover have "map p_command (procs s') =
      map p_command (procs s) @ filter (\<lambda>c. prog c \<noteq> ''cd'') (c # cs)"
    using p1 p2 by simp
  ultimately show ?case by blast
qed

lemma run_stages_prefix:
  assumes "run_stages k li cs f s = (fl, f', s')"
  shows "\<exists>ps. procs s' = procs s @ ps"
proof -
  have "True \<and> (\<exists>ps. procs s' = procs s @ ps \<and> (\<forall>p\<in>set ps. True))"
    by (rule run_stages_spawn_inv [OF assms, where I = "\<lambda>f s. True"])
      (use stage_step_child in blast)+
  then show ?thesis by simp
qed

lemma launch_prefix:
  assumes l: "launch k cmd s = (oc, f, s')"
  shows "procs s' = procs s @ spawned k r cmd s"
proof -
  have "\<exists>ps. procs s' = procs s @ ps"
    using l
  proof (cases rule: launch_cases)
    case (input_failed e)
    then show ?thesis by (simp add: handle_file_error_def eprint_def)
  next
    case (output_failed li s1 e)
    with open_input_cases [OF output_failed(1)] show ?thesis
      by (auto simp: handle_file_error_def eprint_def sys_close_def)
  next
    case (stages li s1 out s2 fl)
    have "procs s2 = procs s"
      using open_input_cases [OF stages(1)] create_output_cases [OF stages(2)] by auto
    with run_stages_prefix [OF stages(3)] show ?thesis by simp
  qed
  then obtain ps where ps: "procs s' = procs s @ ps" by blast
  from spawned_eq [OF l ps] ps show ?thesis by simp
qed

lemma launch_commands:
  assumes np: "\<forall>t. \<not> pipe_fails k t" and nf: "\<forall>t. \<not> fork_fails k t"
    and ne: "\<forall>c\<in>set (pgm cmd). prog c \<noteq> ''exit''"
    and oi: "\<forall>path. rstdin cmd = Some path \<longrightarrow> open_err k path = None"
    and co: "\<forall>path. rstdout cmd = Some path \<longrightarrow> creat_err k path = None"
  shows "fst (launch k cmd s) = Completed \<and>
         map p_command (spawned k r cmd s) = filter (\<lambda>c. prog c \<noteq> ''cd'') (pgm cmd)"
proof -
  obtain oc f s' where l: "launch k cmd s = (oc, f, s')" by (cases "launch k cmd s") auto
  from l show ?thesis
  proof (cases rule: launch_cases)
    case (input_failed e)
    with oi show ?thesis
      by (auto simp: open_input_def sys_open_def Let_def split: option.splits)
  next
    case (output_failed li s1 e)
    with co show ?thesis
      by (auto simp: create_output_def sys_creat_def Let_def split: option.splits)
  next
    case (stages li s1 out s2 fl)
    have p2: "procs s2 = procs s"
      using open_input_cases [OF stages(1)] create_output_cases [OF stages(2)] by auto
    from run_stages_commands [OF np nf ne, of li "first_frame k cmd out" s2] stages(3)
    have fl: "fl = Next" and pc: "map p_command (procs s') =
        map p_command (procs s2) @ filter (\<lambda>c. prog c \<noteq> ''cd'') (pgm cmd)" by auto
    have "procs s' = procs s @ spawned k r cmd s" by (rule launch_prefix [OF l])
    with pc p2 have "map p_command (spawned k r cmd s) = filter (\<lambda>c. prog c \<noteq> ''cd'') (pgm cmd)"
      by simp
    moreover have "fst (launch k cmd s) = Completed"
      using l stages(4) fl by simp
    ultimately show ?thesis by simp
  qed
qed

subsection \<open>The exit status of the interpreter\<close>

lemma stage_body_exit_status:
  assumes "stage_body k c pd f s = (fl, f', s')"
  shows "(fl \<noteq> Exit \<longrightarrow> exit_status s' = exit_status s) \<and>
         (fl = Exit \<longrightarrow> prog c = ''exit'' \<and> exit_status s' = Some 0)"
  using assms
  by (cases rule: stage_body_cases)
    (auto simp: handle_directory_error_def eprint_def parent_branch_eq)

lemma stage_step_exit_status:
  assumes "stage_step k li c lst f s = (fl, f', s')"
  shows "(fl \<noteq> Exit \<longrightarrow> exit_status s' = exit_status s) \<and>
         (fl = Exit \<longrightarrow> prog c = ''exit'' \<and> exit_status s' = Some 0)"
  using assms
proof (cases rule: stage_step_cases)
  case pipe_failed
  then show ?thesis by simp
next
  case (piped pd s1 f1)
  with stage_body_exit_status [OF piped(3)] sys_pipe_Some(2) [OF piped(2)] show ?thesis by simp
next
  case (last f1)
  with stage_body_exit_status [OF last(2)] show ?thesis by simp
qed

lemma run_stages_exit_status:
  assumes "run_stages k li cs f s = (fl, f', s')"
  shows "(fl \<noteq> Exit \<longrightarrow> exit_status s' = exit_status s) \<and>
         (fl = Exit \<longrightarrow> (\<exists>c\<in>set cs. prog c = ''exit'') \<and> exit_status s' = Some 0)"
  using assms
proof (induction cs arbitrary: f s)
  case Nil
  then show ?case by simp
next
  case (Cons c cs)
  from Cons.prems show ?case
  proof (cases rule: run_stages_Cons_cases)
    case (go f1 s1)
    with stage_step_exit_status [OF go(1)] Cons.IH [OF go(2)] show ?thesis by auto
  next
    case stop
    with stage_step_exit_status [OF stop(1)] show ?thesis by auto
  qed
qed

lemma launch_exit_status:
  assumes "launch k cmd s = (oc, f, s')"
  shows "(oc \<noteq> Exit_called \<longrightarrow> exit_status s' = exit_status s) \<and>
         (oc = Exit_called \<longrightarrow> (\<exists>c\<in>set (pgm cmd). prog c = ''exit'') \<and>
            exit_status s' = Some 0)"
  using assms
proof (cases rule: launch_cases)
  case (input_failed e)
  then show ?thesis by (simp add: handle_file_error_def eprint_def)
next
  case (output_failed li s1 e)
  with open_input_cases [OF output_failed(1)] show ?thesis
    by (auto simp: handle_file_error_def eprint_def sys_close_def)
next
  case (stages li s1 out s2 fl)
  have "exit_status s2 = exit_status s"
    using open_input_cases [OF stages(1)] create_output_cases [OF stages(2)] by auto
  with run_stages_exit_status [OF stages(3)] stages(4) show ?thesis
    by (cases fl) auto
qed

subsection \<open>How many processes a command spawns\<close>

lemma stage_step_count:
  assumes "stage_step k li c lst f s = (fl, f', s')"
  shows "length (procs s') \<le> Suc (length (procs s)) \<and>
         (fl = Break \<longrightarrow> length (procs s') = length (procs s))"
  using assms
proof (cases rule: stage_step_cases)
  case pipe_failed
  then show ?thesis by simp
next
  case (piped pd s1 f1)
  have "procs s1 = procs s" using sys_pipe_Some(2) [OF piped(2)] by simp
  with piped(3) show ?thesis
    by (cases rule: stage_body_cases)
      (auto simp: handle_directory_error_def eprint_def parent_branch_eq)
next
  case (last f1)
  from last(2) show ?thesis
    by (cases rule: stage_body_cases)
      (auto simp: handle_directory_error_def eprint_def parent_branch_eq)
qed

lemma run_stages_count:
  assumes "run_stages k li cs f s = (fl, f', s')"
  shows "length (procs s') \<le> length (procs s) + length cs \<and>
         (fl = Break \<longrightarrow> length (procs s') < length (procs s) + length cs)"
  using assms
proof (induction cs arbitrary: f s)
  case Nil
  then show ?case by simp
next
  case (Cons c cs)
  from Cons.prems show ?case
  proof (cases rule: run_stages_Cons_cases)
    case (go f1 s1)
    with stage_step_count [OF go(1)] Cons.IH [OF go(2)] show ?thesis by auto
  next
    case stop
    with stage_step_count [OF stop(1)] show ?thesis by auto
  qed
qed

lemma launch_count:
  assumes l: "launch k cmd s = (oc, f, s')"
  shows "(oc = Input_failed \<or> oc = Output_failed \<longrightarrow> spawned k r cmd s = []) \<and>
         (oc = Pipe_failed \<longrightarrow> length (spawned k r cmd s) < length (pgm cmd))"
proof -
  note pre = launch_prefix [OF l, of r]
  from l show ?thesis
  proof (cases rule: launch_cases)
    case (input_failed e)
    with pre show ?thesis by (simp add: handle_file_error_def eprint_def)
  next
    case (output_failed li s1 e)
    have "procs s' = procs s"
      using output_failed open_input_cases [OF output_failed(1)]
      by (auto simp: handle_file_error_def eprint_def sys_close_def)
    with pre output_failed(3) show ?thesis by simp
  next
    case (stages li s1 out s2 fl)
    have "procs s2 = procs s"
      using open_input_cases [OF stages(1)] create_output_cases [OF stages(2)] by auto
    with run_stages_count [OF stages(3)] stages(4) pre show ?thesis
      by (cases fl) auto
  qed
qed


lemma map_all_same:
  assumes "\<forall>p\<in>set xs. g p = v" and "map h xs = ys"
  shows "map g xs = replicate (length ys) v"
  using assms by (auto simp: map_replicate_const [symmetric] cong: map_cong)

lemma PrintPgm_rev: "PrintPgm p = rev p"
  by (induction p) simp_all

lemma ls_grep_commands:
  "fst (launch kernel_ok ls_grep s) = Completed \<and>
   map p_command (spawned kernel_ok r ls_grep s) = [Argv ''grep'' [''txt''], Argv ''ls'' []]"
  using launch_commands [of kernel_ok ls_grep s r]
  by (simp add: kernel_ok_def ls_grep_def)

lemma ls_grep_commands_no_exec:
  "map p_command (spawned kernel_no_exec 1 ls_grep boot) =
     [Argv ''grep'' [''txt''], Argv ''ls'' []]"
  using launch_commands [of kernel_no_exec ls_grep boot 1]
  by (simp add: kernel_no_exec_def kernel_ok_def ls_grep_def)

subsection \<open>The built-in \<^verbatim>\<open>cd\<close> and the working directory\<close>

lemma stage_body_cd:
  assumes "prog c = ''cd''"
  shows "stage_body k c pd f s =
           (Next, f\<lparr>command_counter := 0\<rparr>,
            case command1 c of
              None \<Rightarrow> s\<lparr>stderr_out := stderr_out s @ [directory_error_text EFAULT]\<rparr>
            | Some dir \<Rightarrow>
                (case chdir_to k (cwd s) dir of
                   Inl e \<Rightarrow> s\<lparr>stderr_out := stderr_out s @ [directory_error_text e]\<rparr>
                 | Inr d \<Rightarrow> s\<lparr>cwd := d\<rparr>))"
  using assms
  by (auto simp: stage_body_def sys_chdir_def handle_directory_error_def eprint_def
      split: option.splits sum.splits)

lemma single_stage_launch:
  assumes "pgm cmd = [c]" and "rstdin cmd = None" and "rstdout cmd = None"
  shows "launch k cmd s =
     (case stage_body k c None (first_frame k cmd STDOUT_FILENO) s of
        (fl, f, s') \<Rightarrow>
          (case fl of Next \<Rightarrow> Completed | Break \<Rightarrow> Pipe_failed | Exit \<Rightarrow> Exit_called,
           f\<lparr>curr_command_index := Suc (curr_command_index f)\<rparr>, s'))"
  using assms
  by (auto simp: launch_def open_input_def create_output_def stage_step_def first_frame_def
      split: prod.splits flow.splits)

lemma single_cd_run:
  assumes "pgm cmd = [c]" and "rstdin cmd = None" and "rstdout cmd = None"
    and "prog c = ''cd''"
  shows "fst (RunCommand k r cmd s) = Completed"
    and "spawned k r cmd s = []"
    and "exit_status (snd (RunCommand k r cmd s)) = exit_status s"
    and "cwd (snd (RunCommand k r cmd s)) =
           (case command1 c of None \<Rightarrow> cwd s
            | Some dir \<Rightarrow> (case chdir_to k (cwd s) dir of Inl e \<Rightarrow> cwd s | Inr d \<Rightarrow> d))"
    and "stderr_out (snd (RunCommand k r cmd s)) =
           (case command1 c of None \<Rightarrow> stderr_out s @ [directory_error_text EFAULT]
            | Some dir \<Rightarrow> (case chdir_to k (cwd s) dir of
                 Inl e \<Rightarrow> stderr_out s @ [directory_error_text e] | Inr d \<Rightarrow> stderr_out s))"
  using assms
  by (auto simp: spawned_def RunCommand_def single_stage_launch stage_body_cd complete_empty
      finish_def split: option.splits sum.splits)

lemma stage_step_cwd:
  assumes "stage_step k li c lst f s = (fl, f', s')" and "prog c \<noteq> ''cd''"
  shows "cwd s' = cwd s"
  using assms(1)
proof (cases rule: stage_step_cases)
  case pipe_failed
  then show ?thesis by simp
next
  case (piped pd s1 f1)
  have "cwd s1 = cwd s" using sys_pipe_Some(2) [OF piped(2)] by simp
  with piped(3) assms(2) show ?thesis
    by (cases rule: stage_body_cases) (auto simp: parent_branch_eq)
next
  case (last f1)
  from last(2) assms(2) show ?thesis
    by (cases rule: stage_body_cases) (auto simp: parent_branch_eq)
qed

lemma spawned_cwd:
  assumes "\<forall>c\<in>set (pgm cmd). prog c \<noteq> ''cd''"
  shows "\<forall>p\<in>set (spawned k r cmd s). p_cwd p = cwd s"
proof -
  obtain oc f s1 where l: "launch k cmd s = (oc, f, s1)" by (cases "launch k cmd s") auto
  show ?thesis
  proof (rule launch_spawn_inv [OF l, where I = "\<lambda>li f s0. cwd s0 = cwd s"])
    fix li s1 out s2
    assume "open_input k cmd s = (Inr li, s1)" and "create_output k cmd s1 = (Inr out, s2)"
    then show "cwd s2 = cwd s"
      using open_input_cases [of k cmd s "Inr li" s1]
        create_output_cases [of k cmd s1 "Inr out" s2] by auto
  next
    fix li c lst f s0 fl f1 s1
    assume c: "c \<in> set (pgm cmd)" and st: "stage_step k li c lst f s0 = (fl, f1, s1)"
      and i: "cwd s0 = cwd s"
    from c assms have "prog c \<noteq> ''cd''" by blast
    from stage_step_cwd [OF st this] i have "cwd s1 = cwd s" by simp
    moreover from stage_step_child [OF st] i
    have "\<exists>ps. procs s1 = procs s0 @ ps \<and> (\<forall>p\<in>set ps. p_cwd p = cwd s)"
      using child_branch_facts(4) by fastforce
    ultimately show "cwd s1 = cwd s \<and>
        (\<exists>ps. procs s1 = procs s0 @ ps \<and> (\<forall>p\<in>set ps. p_cwd p = cwd s))" by simp
  qed
qed


subsection \<open>The recorded process identifiers\<close>

lemma stage_body_pids:
  assumes sb: "stage_body k c pd f s = (fl, f', s')"
    and i: "curr_command_index f < length (command_pids f)"
  shows "length (command_pids f') = length (command_pids f) \<and>
         curr_command_index f' = curr_command_index f \<and>
         take (curr_command_index f) (command_pids f') =
           take (curr_command_index f) (command_pids f) \<and>
         (\<exists>ps. procs s' = procs s @ ps \<and>
           p_pid ` set ps \<subseteq> set (take (Suc (curr_command_index f)) (command_pids f'))) \<and>
         (command_counter f' = command_counter f \<or>
            prog c = ''cd'' \<and> command_counter f' = 0)"
  using sb
proof (cases rule: stage_body_cases)
  case exit
  then show ?thesis by simp
next
  case (cd_failed e)
  then show ?thesis by (simp add: handle_directory_error_def eprint_def)
next
  case (cd_done d)
  then show ?thesis by simp
next
  case fork_failed
  then show ?thesis by (simp add: parent_branch_eq)
next
  case forked
  with i show ?thesis
    using child_branch_facts(1) [OF refl, of k pd "child_in f" "child_out f" c "next_pid s"]
    by (auto simp: parent_branch_eq take_Suc_conv_app_nth)
qed

lemma stage_step_pids:
  assumes st: "stage_step k li c lst f s = (fl, f', s')"
    and i: "curr_command_index f < length (command_pids f)"
  shows "length (command_pids f') = length (command_pids f) \<and>
         curr_command_index f \<le> curr_command_index f' \<and>
         curr_command_index f' \<le> Suc (curr_command_index f) \<and>
         take (curr_command_index f) (command_pids f') =
           take (curr_command_index f) (command_pids f) \<and>
         (\<exists>ps. procs s' = procs s @ ps \<and>
           p_pid ` set ps \<subseteq> set (take (curr_command_index f') (command_pids f'))) \<and>
         (command_counter f' = command_counter f \<or>
            prog c = ''cd'' \<and> command_counter f' = 0)"
  using st
proof (cases rule: stage_step_cases)
  case pipe_failed
  then show ?thesis by simp
next
  case (piped pd s1 f1)
  have "procs s1 = procs s" using sys_pipe_Some(2) [OF piped(2)] by simp
  with stage_body_pids [OF piped(3)] i piped(4) show ?thesis by simp
next
  case (last f1)
  with stage_body_pids [OF last(2)] i show ?thesis by simp
qed

lemma run_stages_pids:
  assumes "run_stages k li cs f s = (fl, f', s')"
    and "curr_command_index f + length cs \<le> length (command_pids f)"
  shows "length (command_pids f') = length (command_pids f) \<and>
         curr_command_index f \<le> curr_command_index f' \<and>
         curr_command_index f' \<le> curr_command_index f + length cs \<and>
         take (curr_command_index f) (command_pids f') =
           take (curr_command_index f) (command_pids f) \<and>
         (\<exists>ps. procs s' = procs s @ ps \<and>
           p_pid ` set ps \<subseteq> set (take (curr_command_index f') (command_pids f'))) \<and>
         (command_counter f' = command_counter f \<or>
            (\<exists>c\<in>set cs. prog c = ''cd'') \<and> command_counter f' = 0)"
  using assms
proof (induction cs arbitrary: f s)
  case Nil
  then show ?case by simp
next
  case (Cons c cs)
  have i: "curr_command_index f < length (command_pids f)" using Cons.prems(2) by simp
  from Cons.prems(1) show ?case
  proof (cases rule: run_stages_Cons_cases)
    case (go f1 s1)
    note s1 = stage_step_pids [OF go(1) i]
    from s1 obtain ps1 where p1: "procs s1 = procs s @ ps1"
      and q1: "p_pid ` set ps1 \<subseteq> set (take (curr_command_index f1) (command_pids f1))"
      by blast
    have "curr_command_index f1 + length cs \<le> length (command_pids f1)"
      using s1 Cons.prems(2) by simp
    note s2 = Cons.IH [OF go(2) this]
    from s2 obtain ps2 where p2: "procs s' = procs s1 @ ps2"
      and q2: "p_pid ` set ps2 \<subseteq> set (take (curr_command_index f') (command_pids f'))"
      by blast
    have "set (take (curr_command_index f1) (command_pids f1)) =
          set (take (curr_command_index f1) (command_pids f'))" using s2 by simp
    also have "\<dots> \<subseteq> set (take (curr_command_index f') (command_pids f'))"
      using s2 by (intro set_take_subset_set_take) simp
    finally have "p_pid ` set (ps1 @ ps2) \<subseteq>
        set (take (curr_command_index f') (command_pids f'))"
      using q1 q2 by auto
    moreover have "procs s' = procs s @ (ps1 @ ps2)" using p1 p2 by simp
    moreover have "take (curr_command_index f) (command_pids f') =
           take (curr_command_index f) (command_pids f)"
    proof -
      have "take (curr_command_index f) (command_pids f') =
            take (curr_command_index f) (take (curr_command_index f1) (command_pids f'))"
        using s1 by (simp add: min_def)
      also have "\<dots> = take (curr_command_index f) (take (curr_command_index f1) (command_pids f1))"
        using s2 by simp
      also have "\<dots> = take (curr_command_index f) (command_pids f1)"
        using s1 by (simp add: min_def)
      finally show ?thesis using s1 by simp
    qed
    ultimately show ?thesis using s1 s2 by (auto simp del: set_append)
  next
    case stop
    with stage_step_pids [OF stop(1) i] show ?thesis by auto
  qed
qed

lemma launch_pids:
  assumes l: "launch k cmd s = (oc, f, s')"
  shows "length (command_pids f) = length (pgm cmd) \<and>
         p_pid ` set (spawned k r cmd s) \<subseteq> set (command_pids f) \<and>
         (command_counter f = length (pgm cmd) \<or>
            (\<exists>c\<in>set (pgm cmd). prog c = ''cd'') \<and> command_counter f = 0)"
proof -
  note pre = launch_prefix [OF l, of r]
  from l show ?thesis
  proof (cases rule: launch_cases)
    case (input_failed e)
    with pre show ?thesis
      by (simp add: handle_file_error_def eprint_def first_frame_def malloc_def
          CountCommands_def)
  next
    case (output_failed li s1 e)
    have "procs s' = procs s"
      using output_failed open_input_cases [OF output_failed(1)]
      by (auto simp: handle_file_error_def eprint_def sys_close_def)
    with pre output_failed(5) show ?thesis
      by (simp add: first_frame_def malloc_def CountCommands_def)
  next
    case (stages li s1 out s2 fl)
    have p2: "procs s2 = procs s"
      using open_input_cases [OF stages(1)] create_output_cases [OF stages(2)] by auto
    have "curr_command_index (first_frame k cmd out) + length (pgm cmd) \<le>
          length (command_pids (first_frame k cmd out))"
      by (simp add: first_frame_def malloc_def CountCommands_def)
    note rp = run_stages_pids [OF stages(3) this]
    from rp obtain ps where ps: "procs s' = procs s2 @ ps"
      and q: "p_pid ` set ps \<subseteq> set (take (curr_command_index f) (command_pids f))" by blast
    from ps p2 pre have "spawned k r cmd s = ps" by simp
    with q have "p_pid ` set (spawned k r cmd s) \<subseteq> set (command_pids f)"
      using set_take_subset [of "curr_command_index f" "command_pids f"] by blast
    with rp show ?thesis
      by (simp add: first_frame_def malloc_def CountCommands_def)
  qed
qed

lemma map_nth_all: "n = length xs \<Longrightarrow> map (\<lambda>j. xs ! j) [0..<n] = xs"
  by (simp add: map_nth)


lemma stage_body_pids_exact:
  assumes sb: "stage_body k c pd f s = (Next, f', s')"
    and nf: "\<not> fork_fails k (clock s)" and nc: "prog c \<noteq> ''cd''"
  shows "\<exists>p. procs s' = procs s @ [p] \<and>
           command_pids f' = (command_pids f)[curr_command_index f := p_pid p] \<and>
           curr_command_index f' = curr_command_index f"
  using sb
proof (cases rule: stage_body_cases)
  case exit
  then show ?thesis by simp
next
  case (cd_failed e)
  with nc show ?thesis by simp
next
  case (cd_done d)
  with nc show ?thesis by simp
next
  case fork_failed
  with nf show ?thesis by simp
next
  case forked
  then show ?thesis
    using child_branch_facts(1) [OF refl, of k pd "child_in f" "child_out f" c "next_pid s"]
    by (simp add: parent_branch_eq)
qed

lemma stage_step_pids_exact:
  assumes st: "stage_step k li c lst f s = (Next, f', s')"
    and nf: "\<forall>t. \<not> fork_fails k t" and nc: "prog c \<noteq> ''cd''"
  shows "\<exists>p. procs s' = procs s @ [p] \<and>
           command_pids f' = (command_pids f)[curr_command_index f := p_pid p] \<and>
           curr_command_index f' = Suc (curr_command_index f)"
  using st
proof (cases rule: stage_step_cases)
  case pipe_failed
  then show ?thesis by simp
next
  case (piped pd s1 f1)
  have "procs s1 = procs s" using sys_pipe_Some(2) [OF piped(2)] by simp
  with stage_body_pids_exact [OF piped(3) _ nc] nf piped(4) show ?thesis by simp
next
  case (last f1)
  with stage_body_pids_exact [OF last(2) _ nc] nf show ?thesis by simp
qed

lemma run_stages_pids_exact:
  assumes "run_stages k li cs f s = (Next, f', s')"
    and nf: "\<forall>t. \<not> fork_fails k t" and "\<forall>c\<in>set cs. prog c \<noteq> ''cd''"
    and "curr_command_index f + length cs \<le> length (command_pids f)"
  shows "\<exists>ps. procs s' = procs s @ ps \<and>
           curr_command_index f' = curr_command_index f + length cs \<and>
           take (curr_command_index f') (command_pids f') =
             take (curr_command_index f) (command_pids f) @ map p_pid ps"
  using assms(1,3,4)
proof (induction cs arbitrary: f s)
  case Nil
  then show ?case by simp
next
  case (Cons c cs)
  have i: "curr_command_index f < length (command_pids f)" using Cons.prems(3) by simp
  from Cons.prems(1) show ?case
  proof (cases rule: run_stages_Cons_cases)
    case (go f1 s1)
    from stage_step_pids_exact [OF go(1) nf] Cons.prems(2)
    obtain p where p1: "procs s1 = procs s @ [p]"
      and c1: "command_pids f1 = (command_pids f)[curr_command_index f := p_pid p]"
      and i1: "curr_command_index f1 = Suc (curr_command_index f)" by auto
    have "curr_command_index f1 + length cs \<le> length (command_pids f1)"
      using c1 i1 Cons.prems(3) by simp
    from Cons.IH [OF go(2) _ this] Cons.prems(2)
    obtain ps where p2: "procs s' = procs s1 @ ps"
      and i2: "curr_command_index f' = curr_command_index f1 + length cs"
      and t2: "take (curr_command_index f') (command_pids f') =
             take (curr_command_index f1) (command_pids f1) @ map p_pid ps" by auto
    have "take (curr_command_index f1) (command_pids f1) =
          take (curr_command_index f) (command_pids f) @ [p_pid p]"
      using c1 i1 i by (simp add: take_Suc_conv_app_nth)
    with p1 p2 i1 i2 t2 have "procs s' = procs s @ (p # ps) \<and>
           curr_command_index f' = curr_command_index f + length (c # cs) \<and>
           take (curr_command_index f') (command_pids f') =
             take (curr_command_index f) (command_pids f) @ map p_pid (p # ps)" by simp
    then show ?thesis by blast
  next
    case stop
    then show ?thesis by simp
  qed
qed

lemma launch_pids_exact:
  assumes l: "launch k cmd s = (Completed, f, s')"
    and nf: "\<forall>t. \<not> fork_fails k t" and nc: "\<forall>c\<in>set (pgm cmd). prog c \<noteq> ''cd''"
  shows "command_pids f = map p_pid (spawned k r cmd s)"
proof -
  note pre = launch_prefix [OF l, of r]
  from l show ?thesis
  proof (cases rule: launch_cases)
    case (input_failed e)
    then show ?thesis by simp
  next
    case (output_failed li s1 e)
    then show ?thesis by simp
  next
    case (stages li s1 out s2 fl)
    have fl: "fl = Next" using stages(4) by (cases fl) simp_all
    have p2: "procs s2 = procs s"
      using open_input_cases [OF stages(1)] create_output_cases [OF stages(2)] by auto
    have "curr_command_index (first_frame k cmd out) + length (pgm cmd) \<le>
          length (command_pids (first_frame k cmd out))"
      by (simp add: first_frame_def malloc_def CountCommands_def)
    from run_stages_pids_exact [OF stages(3) [unfolded fl] nf nc this]
    obtain ps where ps: "procs s' = procs s2 @ ps"
      and i: "curr_command_index f = length (pgm cmd)"
      and t: "take (curr_command_index f) (command_pids f) = map p_pid ps"
      by (auto simp: first_frame_def)
    from ps p2 pre have "spawned k r cmd s = ps" by simp
    moreover have "length (command_pids f) = length (pgm cmd)"
      using launch_pids [OF l, of r] by simp
    ultimately show ?thesis using i t by simp
  qed
qed

lemma stage_step_counter:
  assumes "stage_step k li c lst f s = (Next, f', s')"
  shows "command_counter f' = (if prog c = ''cd'' then 0 else command_counter f)"
  using assms
proof (cases rule: stage_step_cases)
  case pipe_failed
  then show ?thesis by simp
next
  case (piped pd s1 f1)
  from piped(3) piped(4) show ?thesis
    by (cases rule: stage_body_cases) (auto simp: parent_branch_eq)
next
  case (last f1)
  from last(2) last(3) show ?thesis
    by (cases rule: stage_body_cases) (auto simp: parent_branch_eq)
qed

lemma run_stages_counter:
  assumes "run_stages k li cs f s = (Next, f', s')"
  shows "command_counter f' =
           (if \<exists>c\<in>set cs. prog c = ''cd'' then 0
            else command_counter f)"
  using assms
proof (induction cs arbitrary: f s)
  case Nil
  then show ?case by simp
next
  case (Cons c cs)
  from Cons.prems show ?case
  proof (cases rule: run_stages_Cons_cases)
    case (go f1 s1)
    with stage_step_counter [OF go(1)] Cons.IH [OF go(2)] show ?thesis by auto
  next
    case stop
    then show ?thesis by simp
  qed
qed

lemma launch_counter:
  assumes l: "launch k cmd s = (Completed, f, s')"
  shows "command_counter f =
           (if \<exists>c\<in>set (pgm cmd). prog c = ''cd'' then 0 else length (pgm cmd))"
  using l
proof (cases rule: launch_cases)
  case (input_failed e)
  then show ?thesis by simp
next
  case (output_failed li s1 e)
  then show ?thesis by simp
next
  case (stages li s1 out s2 fl)
  have fl: "fl = Next" using stages(4) by (cases fl) simp_all
  from run_stages_counter [OF stages(3) [unfolded fl]] show ?thesis
    by (simp add: first_frame_def CountCommands_def)
qed

subsection \<open>The handler and the wait on recorded children\<close>

lemma sys_kill_safe:
  assumes "0 < p" and "p \<noteq> own_pid s"
  shows "sys_kill p s = s\<lparr>killed := killed s @ [p], terminated := terminated s @ [p]\<rparr>"
  using assms by (simp add: sys_kill_def hits_group_def Let_def)

lemma kill_from_safe:
  assumes "exit_status s = None"
    and "\<forall>j. i \<le> j \<and> j < numChildren s \<longrightarrow> 0 < children s ! j \<and> children s ! j \<noteq> own_pid s"
  shows "kill_from i s =
           s\<lparr>killed := killed s @ map (\<lambda>j. children s ! j) [i..<numChildren s],
             terminated := terminated s @ map (\<lambda>j. children s ! j) [i..<numChildren s]\<rparr>"
  using assms
proof (induction i s rule: kill_from.induct)
  case (1 i s)
  show ?case
  proof (cases "i < numChildren s")
    case True
    let ?p = "children s ! i"
    let ?s1 = "s\<lparr>killed := killed s @ [?p], terminated := terminated s @ [?p]\<rparr>"
    have "0 < ?p \<and> ?p \<noteq> own_pid s" using "1.prems"(2) True by simp
    then have sk: "sys_kill ?p s = ?s1" by (simp add: sys_kill_safe)
    have c: "i < numChildren s \<and> exit_status s = None" using True "1.prems"(1) by simp
    have "kill_from i s = kill_from (Suc i) ?s1"
      using c sk by (subst kill_from.simps) simp
    also have "\<dots> =
        ?s1\<lparr>killed := killed ?s1 @ map (\<lambda>j. children ?s1 ! j) [Suc i..<numChildren ?s1],
            terminated :=
              terminated ?s1 @ map (\<lambda>j. children ?s1 ! j) [Suc i..<numChildren ?s1]\<rparr>"
      by (rule "1.IH" [OF c, unfolded sk]) (use "1.prems" in simp_all)
    also have "\<dots> =
        s\<lparr>killed := killed s @ map (\<lambda>j. children s ! j) [i..<numChildren s],
          terminated := terminated s @ map (\<lambda>j. children s ! j) [i..<numChildren s]\<rparr>"
      using True by (simp add: upt_conv_Cons)
    finally show ?thesis .
  next
    case False
    then show ?thesis by (subst kill_from.simps) simp
  qed
qed

lemma armed_handler:
  assumes "armed f s"
  shows "deliver_SIGINT k s =
           s\<lparr>killed := killed s @ command_pids f,
             terminated := terminated s @ command_pids f\<rparr>"
proof -
  from assms have safe: "\<forall>j. 0 \<le> j \<and> j < numChildren s \<longrightarrow>
      0 < children s ! j \<and> children s ! j \<noteq> own_pid s"
    by (auto simp: armed_def list_all_length)
  have e: "exit_status s = None" using assms by (simp add: armed_def)
  have "map (\<lambda>j. children s ! j) [0..<numChildren s] = command_pids f"
    using assms by (simp add: armed_def map_nth)
  with kill_from_safe [OF e safe] assms show ?thesis
    by (simp add: deliver_SIGINT_def KillChildrenOnSignal_def armed_def)
qed

lemma wait_entry_armed:
  assumes "armed f s"
  shows "armed f (wait_entry k p s)"
    and "waited (wait_entry k p s) = waited s @ [p]"
    and "clock (wait_entry k p s) = Suc (clock s)"
    and "sigint_at k (clock s) \<Longrightarrow>
           killed (wait_entry k p s) = killed s @ command_pids f \<and>
           terminated (wait_entry k p s) = terminated s @ command_pids f"
    and "\<not> sigint_at k (clock s) \<Longrightarrow>
           killed (wait_entry k p s) = killed s \<and>
           terminated (wait_entry k p s) = terminated s"
proof -
  let ?s0 = "s\<lparr>waited := waited s @ [p], clock := Suc (clock s)\<rparr>"
  have a0: "armed f ?s0" using assms by (simp add: armed_def)
  note h = armed_handler [OF a0, of k]
  show "armed f (wait_entry k p s)"
    and "waited (wait_entry k p s) = waited s @ [p]"
    and "clock (wait_entry k p s) = Suc (clock s)"
    and "sigint_at k (clock s) \<Longrightarrow>
           killed (wait_entry k p s) = killed s @ command_pids f \<and>
           terminated (wait_entry k p s) = terminated s @ command_pids f"
    and "\<not> sigint_at k (clock s) \<Longrightarrow>
           killed (wait_entry k p s) = killed s \<and>
           terminated (wait_entry k p s) = terminated s"
    using assms by (simp_all add: wait_entry_def Let_def h armed_def)
qed

lemma not_alive: "p \<in> set (terminated s) \<Longrightarrow> p \<notin> set (alive s)"
  by (auto simp: alive_def)

lemma sys_waitpid_child:
  assumes "0 < p" and "exit_status (wait_entry k p s) = None"
  shows "sys_waitpid k p s =
           (if p \<in> set (alive (wait_entry k p s)) then
              (if finishes k p
               then (True, (wait_entry k p s)
                       \<lparr>terminated := terminated (wait_entry k p s) @ [p]\<rparr>)
               else (False, wait_entry k p s))
            else (True, wait_entry k p s))"
  using assms by (simp add: sys_waitpid_def waits_for_any_def hits_group_def Let_def)

lemma wait_from_dead:
  assumes "armed f s"
    and "\<forall>j. i \<le> j \<and> j < command_counter f \<longrightarrow> command_pids f ! j \<in> set (terminated s)"
  shows "\<exists>s' ks. wait_from k i f s = (True, s') \<and> armed f s' \<and>
           set (terminated s) \<subseteq> set (terminated s') \<and>
           killed s' = killed s @ ks \<and> set ks \<subseteq> set (command_pids f) \<and>
           waited s' = waited s @ map (\<lambda>j. command_pids f ! j) [i..<command_counter f]"
  using assms
proof (induction "command_counter f - i" arbitrary: i s)
  case 0
  then have "\<not> i < command_counter f" by simp
  with 0 show ?case by (simp add: wait_from_none)
next
  case (Suc n)
  then have lt: "i < command_counter f" by simp
  let ?p = "command_pids f ! i"
  let ?s1 = "wait_entry k ?p s"
  note we = wait_entry_armed [OF Suc.prems(1), of k ?p]
  have a1: "armed f ?s1" by (rule we(1))
  have sub: "set (terminated s) \<subseteq> set (terminated ?s1)"
    using we(4,5) by (cases "sigint_at k (clock s)") auto
  obtain ks1 where k1: "killed ?s1 = killed s @ ks1" and k1s: "set ks1 \<subseteq> set (command_pids f)"
    using we(4,5) by (cases "sigint_at k (clock s)") auto
  have pos: "0 < ?p" using Suc.prems(1) lt by (simp add: armed_def list_all_length)
  have "?p \<in> set (terminated s)" using Suc.prems(2) lt by simp
  with sub have "?p \<notin> set (alive ?s1)" by (intro not_alive) blast
  with sys_waitpid_child [OF pos] a1 have sw: "sys_waitpid k ?p s = (True, ?s1)"
    by (simp add: armed_def)
  have w: "wait_from k i f s = wait_from k (Suc i) f ?s1"
    using lt sw by (subst wait_from.simps) simp
  have n: "n = command_counter f - Suc i" using Suc.hyps(2) by simp
  have dead1: "\<forall>j. Suc i \<le> j \<and> j < command_counter f \<longrightarrow>
      command_pids f ! j \<in> set (terminated ?s1)"
    using Suc.prems(2) sub by auto
  from Suc.hyps(1) [OF n a1 dead1] obtain s' ks
    where r: "wait_from k (Suc i) f ?s1 = (True, s')" "armed f s'"
      "set (terminated ?s1) \<subseteq> set (terminated s')"
      "killed s' = killed ?s1 @ ks" "set ks \<subseteq> set (command_pids f)"
      "waited s' = waited ?s1 @ map (\<lambda>j. command_pids f ! j) [Suc i..<command_counter f]"
    by blast
  have "wait_from k i f s = (True, s') \<and> armed f s' \<and>
      set (terminated s) \<subseteq> set (terminated s') \<and>
      killed s' = killed s @ (ks1 @ ks) \<and> set (ks1 @ ks) \<subseteq> set (command_pids f) \<and>
      waited s' = waited s @ map (\<lambda>j. command_pids f ! j) [i..<command_counter f]"
    using w r sub k1 k1s we(2) lt by (auto simp: upt_conv_Cons)
  then show ?case by blast
qed

lemma wait_from_interrupt_now:
  assumes a: "armed f s" and lt: "i < command_counter f" and now: "sigint_at k (clock s)"
  shows "\<exists>s' ks. wait_from k i f s = (True, s') \<and> armed f s' \<and>
           set (command_pids f) \<subseteq> set (terminated s') \<and>
           killed s' = killed s @ command_pids f @ ks \<and> set ks \<subseteq> set (command_pids f) \<and>
           waited s' = waited s @ map (\<lambda>j. command_pids f ! j) [i..<command_counter f]"
proof -
  let ?p = "command_pids f ! i"
  let ?s1 = "wait_entry k ?p s"
  note we = wait_entry_armed [OF a, of k ?p]
  have a1: "armed f ?s1" by (rule we(1))
  have t1: "terminated ?s1 = terminated s @ command_pids f"
    and k1: "killed ?s1 = killed s @ command_pids f" using we(4) [OF now] by simp_all
  have len: "command_counter f = length (command_pids f)" using a by (simp add: armed_def)
  have pos: "0 < ?p" using a lt by (simp add: armed_def list_all_length)
  have "?p \<in> set (terminated ?s1)" using t1 lt len by simp
  then have "?p \<notin> set (alive ?s1)" by (rule not_alive)
  with sys_waitpid_child [OF pos] a1 have sw: "sys_waitpid k ?p s = (True, ?s1)"
    by (simp add: armed_def)
  have w: "wait_from k i f s = wait_from k (Suc i) f ?s1"
    using lt sw by (subst wait_from.simps) simp
  have "\<forall>j. Suc i \<le> j \<and> j < command_counter f \<longrightarrow>
      command_pids f ! j \<in> set (terminated ?s1)"
    using t1 len by simp
  from wait_from_dead [OF a1 this, of k] obtain s' ks
    where r: "wait_from k (Suc i) f ?s1 = (True, s')" "armed f s'"
      "set (terminated ?s1) \<subseteq> set (terminated s')"
      "killed s' = killed ?s1 @ ks" "set ks \<subseteq> set (command_pids f)"
      "waited s' = waited ?s1 @ map (\<lambda>j. command_pids f ! j) [Suc i..<command_counter f]"
    by blast
  have "wait_from k i f s = (True, s') \<and> armed f s' \<and>
      set (command_pids f) \<subseteq> set (terminated s') \<and>
      killed s' = killed s @ command_pids f @ ks \<and> set ks \<subseteq> set (command_pids f) \<and>
      waited s' = waited s @ map (\<lambda>j. command_pids f ! j) [i..<command_counter f]"
    using w r t1 k1 we(2) lt by (auto simp: upt_conv_Cons)
  then show ?thesis by blast
qed

lemma wait_from_interrupt:
  assumes "armed f s" and "i \<le> j" and "j < command_counter f"
    and "sigint_at k (clock s + (j - i))"
    and "\<forall>m. i \<le> m \<and> m < j \<longrightarrow> finishes k (command_pids f ! m)"
  shows "\<exists>s' ks. wait_from k i f s = (True, s') \<and> armed f s' \<and>
           set (command_pids f) \<subseteq> set (terminated s') \<and>
           killed s' = killed s @ command_pids f @ ks \<and> set ks \<subseteq> set (command_pids f) \<and>
           waited s' = waited s @ map (\<lambda>j. command_pids f ! j) [i..<command_counter f]"
  using assms
proof (induction "j - i" arbitrary: i s)
  case 0
  then have "i < command_counter f" and "sigint_at k (clock s)" by simp_all
  from wait_from_interrupt_now [OF "0.prems"(1) this] show ?case .
next
  case (Suc n)
  then have ij: "i < j" and lt: "i < command_counter f" by simp_all
  show ?case
  proof (cases "sigint_at k (clock s)")
    case True
    from wait_from_interrupt_now [OF Suc.prems(1) lt True] show ?thesis .
  next
    case False
    let ?p = "command_pids f ! i"
    let ?s1 = "wait_entry k ?p s"
    note we = wait_entry_armed [OF Suc.prems(1), of k ?p]
    have pos: "0 < ?p" using Suc.prems(1) lt by (simp add: armed_def list_all_length)
    have fin: "finishes k ?p" using Suc.prems(5) ij by simp
    have e1: "exit_status ?s1 = None" using we(1) by (simp add: armed_def)
    obtain s2 where sw: "sys_waitpid k ?p s = (True, s2)" and a2: "armed f s2"
      and c2: "clock s2 = Suc (clock s)" and k2: "killed s2 = killed s"
      and w2: "waited s2 = waited s @ [?p]"
    proof (cases "?p \<in> set (alive ?s1)")
      case True
      show thesis
      proof (rule that)
        show "sys_waitpid k ?p s = (True, ?s1\<lparr>terminated := terminated ?s1 @ [?p]\<rparr>)"
          using True fin by (simp add: sys_waitpid_child [OF pos e1])
      qed (use we False in \<open>simp_all add: armed_def\<close>)
    next
      case nal: False
      show thesis
      proof (rule that)
        show "sys_waitpid k ?p s = (True, ?s1)"
          using nal by (simp add: sys_waitpid_child [OF pos e1])
      qed (use we False in simp_all)
    qed
    have w: "wait_from k i f s = wait_from k (Suc i) f s2"
      using lt sw by (subst wait_from.simps) simp
    have n: "n = j - Suc i" using Suc.hyps(2) by simp
    have le: "Suc i \<le> j" using ij by simp
    have at: "sigint_at k (clock s2 + (j - Suc i))"
    proof -
      have "clock s2 + (j - Suc i) = clock s + (j - i)" using c2 ij by simp
      with Suc.prems(4) show ?thesis by simp
    qed
    have fins: "\<forall>m. Suc i \<le> m \<and> m < j \<longrightarrow> finishes k (command_pids f ! m)"
      using Suc.prems(5) by simp
    from Suc.hyps(1) [OF n a2 le Suc.prems(3) at fins] obtain s' ks
      where r: "wait_from k (Suc i) f s2 = (True, s')" "armed f s'"
        "set (command_pids f) \<subseteq> set (terminated s')"
        "killed s' = killed s2 @ command_pids f @ ks" "set ks \<subseteq> set (command_pids f)"
        "waited s' = waited s2 @ map (\<lambda>j. command_pids f ! j) [Suc i..<command_counter f]"
      by blast
    have "wait_from k i f s = (True, s') \<and> armed f s' \<and>
        set (command_pids f) \<subseteq> set (terminated s') \<and>
        killed s' = killed s @ command_pids f @ ks \<and> set ks \<subseteq> set (command_pids f) \<and>
        waited s' = waited s @ map (\<lambda>j. command_pids f ! j) [i..<command_counter f]"
      using w r k2 w2 lt by (auto simp: upt_conv_Cons)
    then show ?thesis by blast
  qed
qed

subsection \<open>Fresh process identifiers\<close>

lemma stage_body_fresh:
  assumes "stage_body k c pd f s = (fl, f', s')"
  shows "next_pid s \<le> next_pid s' \<and>
         (\<exists>ps. procs s' = procs s @ ps \<and> (\<forall>p\<in>set ps. next_pid s \<le> p_pid p))"
  using assms
proof (cases rule: stage_body_cases)
  case exit
  then show ?thesis by simp
next
  case (cd_failed e)
  then show ?thesis by (simp add: handle_directory_error_def eprint_def)
next
  case (cd_done d)
  then show ?thesis by simp
next
  case fork_failed
  then show ?thesis by (simp add: parent_branch_eq)
next
  case forked
  then show ?thesis
    using child_branch_facts(1) [OF refl, of k pd "child_in f" "child_out f" c "next_pid s"]
    by (simp add: parent_branch_eq)
qed

lemma stage_step_fresh:
  assumes "stage_step k li c lst f s = (fl, f', s')"
  shows "next_pid s \<le> next_pid s' \<and>
         (\<exists>ps. procs s' = procs s @ ps \<and> (\<forall>p\<in>set ps. next_pid s \<le> p_pid p))"
  using assms
proof (cases rule: stage_step_cases)
  case pipe_failed
  then show ?thesis by simp
next
  case (piped pd s1 f1)
  have "procs s1 = procs s" and "next_pid s1 = next_pid s"
    using sys_pipe_Some(2) [OF piped(2)] by simp_all
  with stage_body_fresh [OF piped(3)] show ?thesis by simp
next
  case (last f1)
  with stage_body_fresh [OF last(2)] show ?thesis by simp
qed

lemma spawned_fresh: "\<forall>p\<in>set (spawned k r cmd s). next_pid s \<le> p_pid p"
proof -
  obtain oc f s1 where l: "launch k cmd s = (oc, f, s1)" by (cases "launch k cmd s") auto
  show ?thesis
  proof (rule launch_spawn_inv [OF l, where I = "\<lambda>li f s0. next_pid s \<le> next_pid s0"])
    fix li s1 out s2
    assume "open_input k cmd s = (Inr li, s1)" and "create_output k cmd s1 = (Inr out, s2)"
    then show "next_pid s \<le> next_pid s2"
      using open_input_cases [of k cmd s "Inr li" s1]
        create_output_cases [of k cmd s1 "Inr out" s2] by auto
  next
    fix li c lst f s0 fl f1 s1
    assume "stage_step k li c lst f s0 = (fl, f1, s1)" and i: "next_pid s \<le> next_pid s0"
    from stage_step_fresh [OF this(1)] i
    show "next_pid s \<le> next_pid s1 \<and>
        (\<exists>ps. procs s1 = procs s0 @ ps \<and> (\<forall>p\<in>set ps. next_pid s \<le> p_pid p))"
      by fastforce
  qed
qed

lemma spawned_replaced:
  assumes "\<forall>name. execvp_err k name = None"
  shows "\<forall>p\<in>set (spawned k r cmd s). p_replaced p"
proof
  fix p assume "p \<in> set (spawned k r cmd s)"
  with spawned_children [of k r cmd s]
  obtain pd ci co pid s0 where "p = child_branch k pd ci co (p_command p) pid s0" by blast
  from child_branch_facts(5) [OF this] assms show "p_replaced p" by simp
qed

subsection \<open>A foreground pipeline and the interrupt\<close>

lemma waiting_launch:
  assumes l: "launch k cmd s = (oc, f, s1)"
  shows "waiting k cmd s = publish f s1"
    and "sigint (waiting k cmd s) = SIG_KillChildrenOnSignal"
    and "children (waiting k cmd s) = command_pids f"
    and "numChildren (waiting k cmd s) = command_counter f"
    and "clock (waiting k cmd s) = clock s1"
  by (simp_all add: waiting_def l publish_def)

lemma foreground_armed:
  assumes l: "launch k cmd s = (Completed, f, s1)"
    and nocd: "\<forall>c\<in>set (pgm cmd). prog c \<noteq> ''cd''"
    and forks: "\<forall>t. \<not> fork_fails k t"
    and lives: "exit_status s = None"
    and pid: "0 < next_pid s" and own: "own_pid s < next_pid s"
  shows "armed f (publish f s1)"
    and "command_pids f = map p_pid (spawned k r cmd s)"
    and "command_counter f = length (pgm cmd)"
    and "length (spawned k r cmd s) = length (pgm cmd)"
proof -
  note lp = launch_pids [OF l, of r]
  show ex: "command_pids f = map p_pid (spawned k r cmd s)"
    by (rule launch_pids_exact [OF l forks nocd])
  show cc: "command_counter f = length (pgm cmd)" using launch_counter [OF l] nocd by auto
  show "length (spawned k r cmd s) = length (pgm cmd)"
    using lp arg_cong [OF ex, of length] by simp
  have e1: "exit_status s1 = None" using launch_exit_status [OF l] lives by simp
  have o1: "own_pid s1 = own_pid s" using launch_job [OF l] by (simp add: unchanged_job_def)
  have "\<forall>p\<in>set (command_pids f). 0 < p \<and> p \<noteq> own_pid s1"
    using spawned_fresh [of k r cmd s] pid own by (auto simp: ex o1)
  then show "armed f (publish f s1)"
    using lp cc e1 by (simp add: armed_def publish_def list_all_iff)
qed

lemma foreground_interrupt:
  assumes fg: "\<not> background cmd"
    and l: "launch k cmd s = (Completed, f, s1)"
    and a: "armed f (publish f s1)"
    and j: "j < command_counter f" and at: "sigint_at k (clock s1 + j)"
    and fins: "\<forall>m<j. finishes k (command_pids f ! m)"
  shows "\<exists>s' ks. RunCommand k r cmd s = (Completed, s') \<and> exit_status s' = None \<and>
           set (command_pids f) \<subseteq> set (terminated s') \<and>
           killed s' = killed s @ command_pids f @ ks \<and> set ks \<subseteq> set (command_pids f) \<and>
           waited s' = waited s @ command_pids f \<and>
           numChildren s' = 0 \<and> sigint s' = SIG_IGN \<and> procs s' = procs s1"
proof -
  have at': "sigint_at k (clock (publish f s1) + (j - 0))" using at by (simp add: publish_def)
  have fins': "\<forall>m. 0 \<le> m \<and> m < j \<longrightarrow> finishes k (command_pids f ! m)" using fins by simp
  from wait_from_interrupt [OF a _ j at' fins'] obtain s2 ks
    where r: "wait_from k 0 f (publish f s1) = (True, s2)" "armed f s2"
      "set (command_pids f) \<subseteq> set (terminated s2)"
      "killed s2 = killed (publish f s1) @ command_pids f @ ks"
      "set ks \<subseteq> set (command_pids f)"
      "waited s2 = waited (publish f s1) @
         map (\<lambda>j. command_pids f ! j) [0..<command_counter f]"
    by blast
  have all: "map (\<lambda>j. command_pids f ! j) [0..<command_counter f] = command_pids f"
    using a by (simp add: armed_def map_nth)
  have j1: "killed s1 = killed s" "waited s1 = waited s"
    using launch_job [OF l] by (simp_all add: unchanged_job_def)
  have p2: "procs s2 = procs s1"
    using wait_from_keeps [OF r(1)] by (simp add: wait_keeps_def publish_def)
  have rc: "RunCommand k r cmd s = (Completed, unpublish s2)"
    using fg r(1) by (simp add: RunCommand_launch [OF l] complete_def finish_def)
  have "RunCommand k r cmd s = (Completed, unpublish s2) \<and>
      exit_status (unpublish s2) = None \<and>
      set (command_pids f) \<subseteq> set (terminated (unpublish s2)) \<and>
      killed (unpublish s2) = killed s @ command_pids f @ ks \<and>
      set ks \<subseteq> set (command_pids f) \<and>
      waited (unpublish s2) = waited s @ command_pids f \<and>
      numChildren (unpublish s2) = 0 \<and> sigint (unpublish s2) = SIG_IGN \<and>
      procs (unpublish s2) = procs s1"
    using rc r all j1 p2 by (simp add: unpublish_def publish_def armed_def)
  then show ?thesis by blast
qed

subsection \<open>A pipe that cannot be made, in the foreground\<close>

lemma stage_step_cells:
  assumes "stage_step k li c lst f s = (fl, f', s')"
  shows "(\<forall>i. i \<noteq> curr_command_index f \<longrightarrow> command_pids f' ! i = command_pids f ! i) \<and>
         (fl = Break \<longrightarrow> f' = f) \<and>
         (fl \<noteq> Break \<longrightarrow> curr_command_index f' = Suc (curr_command_index f))"
  using assms
proof (cases rule: stage_step_cases)
  case pipe_failed
  then show ?thesis by simp
next
  case (piped pd s1 f1)
  from piped(3) piped(4) show ?thesis
    by (cases rule: stage_body_cases) (auto simp: parent_branch_eq)
next
  case (last f1)
  from last(2) last(3) show ?thesis
    by (cases rule: stage_body_cases) (auto simp: parent_branch_eq)
qed

lemma run_stages_cells:
  assumes "run_stages k li cs f s = (Break, f', s')"
  shows "cs \<noteq> [] \<and>
         (\<forall>i. curr_command_index f + length cs \<le> Suc i \<longrightarrow>
            command_pids f' ! i = command_pids f ! i)"
  using assms
proof (induction cs arbitrary: f s)
  case Nil
  then show ?case by simp
next
  case (Cons c cs)
  from Cons.prems show ?case
  proof (cases rule: run_stages_Cons_cases)
    case (go f1 s1)
    note st = stage_step_cells [OF go(1)]
    note ih = Cons.IH [OF go(2)]
    have i1: "curr_command_index f1 = Suc (curr_command_index f)" using st by simp
    have "\<forall>i. curr_command_index f + length (c # cs) \<le> Suc i \<longrightarrow>
        command_pids f' ! i = command_pids f ! i"
    proof (intro allI impI)
      fix i assume a: "curr_command_index f + length (c # cs) \<le> Suc i"
      have "cs \<noteq> []" using ih by simp
      then have "0 < length cs" by simp
      with a have "i \<noteq> curr_command_index f" by (simp del: length_greater_0_conv)
      with st have "command_pids f1 ! i = command_pids f ! i" by simp
      moreover from a i1 have "curr_command_index f1 + length cs \<le> Suc i" by simp
      with ih have "command_pids f' ! i = command_pids f1 ! i" by simp
      ultimately show "command_pids f' ! i = command_pids f ! i" by simp
    qed
    then show ?thesis by simp
  next
    case stop
    with stage_step_cells [OF stop(1)] show ?thesis by simp
  qed
qed

lemma launch_unwritten:
  assumes l: "launch k cmd s = (Pipe_failed, f, s1)"
  shows "pgm cmd \<noteq> []"
    and "command_pids f ! (length (pgm cmd) - 1) = heap k (length (pgm cmd) - 1)"
proof -
  have "pgm cmd \<noteq> [] \<and>
      command_pids f ! (length (pgm cmd) - 1) = heap k (length (pgm cmd) - 1)"
    using l
  proof (cases rule: launch_cases)
    case (input_failed e)
    then show ?thesis by simp
  next
    case (output_failed li s0 e)
    then show ?thesis by simp
  next
    case (stages li s0 out s2 fl)
    have fl: "fl = Break" using stages(4) by (cases fl) simp_all
    note rc = run_stages_cells [OF stages(3) [unfolded fl]]
    then have ne: "pgm cmd \<noteq> []" by simp
    then have "curr_command_index (first_frame k cmd out) + length (pgm cmd) \<le>
        Suc (length (pgm cmd) - 1)" by (simp add: first_frame_def)
    with rc have "command_pids f ! (length (pgm cmd) - 1) =
        command_pids (first_frame k cmd out) ! (length (pgm cmd) - 1)" by blast
    with ne show ?thesis by (simp add: first_frame_def malloc_def CountCommands_def)
  qed
  then show "pgm cmd \<noteq> []"
    and "command_pids f ! (length (pgm cmd) - 1) = heap k (length (pgm cmd) - 1)"
    by simp_all
qed

lemma sys_kill_exit_status:
  assumes "exit_status s = None"
  shows "exit_status (sys_kill p s) = None \<or> exit_status (sys_kill p s) = Some 137"
    and "p = 0 \<Longrightarrow> exit_status (sys_kill p s) = Some 137"
  using assms by (simp_all add: sys_kill_def hits_group_def Let_def)

lemma kill_from_dies:
  assumes "exit_status s = None" and "i \<le> j" and "j < numChildren s"
    and "children s ! j = 0"
  shows "exit_status (kill_from i s) = Some 137"
  using assms
proof (induction i s rule: kill_from.induct)
  case (1 i s)
  let ?s1 = "sys_kill (children s ! i) s"
  have c: "i < numChildren s \<and> exit_status s = None" using "1.prems" by simp
  then have step: "kill_from i s = kill_from (Suc i) ?s1"
    by (subst kill_from.simps) simp
  have keep: "children ?s1 = children s" "numChildren ?s1 = numChildren s"
    using sys_kill_keeps [of s "children s ! i"] by (simp_all add: wait_keeps_def)
  show ?case
  proof (cases "exit_status ?s1 = None")
    case True
    with sys_kill_exit_status(2) [OF "1.prems"(1), of "children s ! i"] "1.prems"(4)
    have "i \<noteq> j" by auto
    with "1.prems"(2) have "Suc i \<le> j" by simp
    from "1.IH" [OF c True this] "1.prems"(3,4) keep step show ?thesis by simp
  next
    case False
    with sys_kill_exit_status(1) [OF "1.prems"(1), of "children s ! i"]
    have d: "exit_status ?s1 = Some 137" by simp
    then have "kill_from (Suc i) ?s1 = ?s1" by (subst kill_from.simps) simp
    with step d show ?thesis by simp
  qed
qed

lemma pipe_failure_interrupt:
  assumes fg: "\<not> background cmd"
    and l: "launch k cmd s = (Pipe_failed, f, s1)"
    and nocd: "\<forall>c\<in>set (pgm cmd). prog c \<noteq> ''cd''"
    and cell: "heap k (length (pgm cmd) - 1) = 0"
    and lives: "exit_status s = None"
    and at: "sigint_at k (clock s1)"
  shows "fst (RunCommand k r cmd s) = Killed"
    and "exit_status (snd (RunCommand k r cmd s)) = Some 137"
proof -
  note lu = launch_unwritten [OF l]
  have cc: "command_counter f = length (pgm cmd)" using launch_pids [OF l, of r] nocd by auto
  then have lt: "0 < command_counter f" using lu(1) by simp
  have e1: "exit_status s1 = None" using launch_exit_status [OF l] lives by simp
  let ?p = "command_pids f ! 0"
  let ?s0 = "(publish f s1)\<lparr>waited := waited (publish f s1) @ [?p],
                clock := Suc (clock (publish f s1))\<rparr>"
  have we: "wait_entry k ?p (publish f s1) = kill_from 0 ?s0"
    using at by (simp add: wait_entry_def Let_def publish_def deliver_SIGINT_def
        KillChildrenOnSignal_def)
  have "exit_status (kill_from 0 ?s0) = Some 137"
  proof (rule kill_from_dies [where j = "length (pgm cmd) - 1"])
    show "exit_status ?s0 = None" using e1 by (simp add: publish_def)
    show "0 \<le> length (pgm cmd) - 1" by simp
    show "length (pgm cmd) - 1 < numChildren ?s0" using cc lt by (simp add: publish_def)
    show "children ?s0 ! (length (pgm cmd) - 1) = 0"
      using lu(2) cell by (simp add: publish_def)
  qed
  with we have d: "exit_status (wait_entry k ?p (publish f s1)) = Some 137" by simp
  then have sw: "sys_waitpid k ?p (publish f s1) = (False, wait_entry k ?p (publish f s1))"
    by (simp add: sys_waitpid_def Let_def)
  have "wait_from k 0 f (publish f s1) = (False, wait_entry k ?p (publish f s1))"
    using lt sw by (subst wait_from.simps) simp
  then have "RunCommand k r cmd s = (Killed, wait_entry k ?p (publish f s1))"
    using fg d by (simp add: RunCommand_launch [OF l] complete_def finish_def)
  with d show "fst (RunCommand k r cmd s) = Killed"
    and "exit_status (snd (RunCommand k r cmd s)) = Some 137" by simp_all
qed

lemma alive_cong:
  "procs s' = procs s \<Longrightarrow> terminated s' = terminated s \<Longrightarrow> alive s' = alive s"
  by (simp add: alive_def)

lemma wait_for_any_blocks:
  assumes quiet: "\<not> sigint_at k (clock s)" and lives: "exit_status s = None"
    and run: "q \<in> set (alive s)" "\<not> finishes k q"
  shows "sys_waitpid k 0 s = (False, s\<lparr>waited := waited s @ [0], clock := Suc (clock s)\<rparr>)"
proof -
  let ?s0 = "s\<lparr>waited := waited s @ [0], clock := Suc (clock s)\<rparr>"
  have we: "wait_entry k 0 s = ?s0" using quiet by (simp add: wait_entry_def Let_def)
  have "alive ?s0 = alive s" by (rule alive_cong) simp_all
  with run have "\<not> list_all (finishes k) (alive ?s0)" by (auto simp: list_all_iff)
  then show ?thesis
    using lives by (simp add: sys_waitpid_def we waits_for_any_def hits_group_def Let_def)
qed

lemma first_pipe_failure:
  assumes pg: "pgm cmd = c # c' # cs" and ri: "rstdin cmd = None" and ro: "rstdout cmd = None"
    and pf: "pipe_fails k (clock s)"
  shows "\<exists>s1. launch k cmd s = (Pipe_failed, first_frame k cmd STDOUT_FILENO, s1) \<and>
           procs s1 = procs s \<and> terminated s1 = terminated s \<and>
           exit_status s1 = exit_status s \<and> clock s1 = Suc (clock s)"
  using assms
  by (simp add: launch_def open_input_def create_output_def stage_step_def sys_pipe_def
      eprint_def first_frame_def Let_def)

lemma pipe_failure_blocks:
  assumes pg: "pgm cmd = c # c' # cs" and ri: "rstdin cmd = None" and ro: "rstdout cmd = None"
    and fg: "\<not> background cmd" and pf: "pipe_fails k (clock s)"
    and cell: "heap k 0 = 0" and lives: "exit_status s = None"
    and quiet: "\<not> sigint_at k (Suc (clock s))"
    and run: "q \<in> set (alive s)" "\<not> finishes k q"
  shows "fst (RunCommand k r cmd s) = Blocked"
    and "exit_status (snd (RunCommand k r cmd s)) = None"
proof -
  let ?f = "first_frame k cmd STDOUT_FILENO"
  from first_pipe_failure [OF pg ri ro pf] obtain s1
    where l: "launch k cmd s = (Pipe_failed, ?f, s1)"
      and s1: "procs s1 = procs s" "terminated s1 = terminated s"
        "exit_status s1 = exit_status s" "clock s1 = Suc (clock s)" by blast
  have cc: "0 < command_counter ?f" using pg by (simp add: first_frame_def CountCommands_def)
  have c0: "command_pids ?f ! 0 = 0"
    using pg cell by (simp add: first_frame_def malloc_def CountCommands_def del: upt_Suc)
  let ?s2 = "publish ?f s1"
  let ?s3 = "?s2\<lparr>waited := waited ?s2 @ [0], clock := Suc (clock ?s2)\<rparr>"
  have al: "alive ?s2 = alive s" by (rule alive_cong) (simp_all add: publish_def s1)
  have sw: "sys_waitpid k 0 ?s2 = (False, ?s3)"
  proof (rule wait_for_any_blocks [where q = q])
    show "\<not> sigint_at k (clock ?s2)" using quiet by (simp add: publish_def s1)
    show "exit_status ?s2 = None" using lives by (simp add: publish_def s1)
    show "q \<in> set (alive ?s2)" using run(1) al by simp
    show "\<not> finishes k q" by (rule run(2))
  qed
  have wf: "wait_from k 0 ?f ?s2 = (False, ?s3)"
    using cc c0 sw by (subst wait_from.simps) simp
  have e3: "exit_status ?s3 = None" using lives by (simp add: publish_def s1)
  have "RunCommand k r cmd s = (Blocked, ?s3)"
    using fg wf e3 by (simp add: RunCommand_launch [OF l] complete_def finish_def)
  with e3 show "fst (RunCommand k r cmd s) = Blocked"
    and "exit_status (snd (RunCommand k r cmd s)) = None" by simp_all
qed

lemma background_single:
  assumes pg: "pgm cmd = [c]" and ri: "rstdin cmd = None" and ro: "rstdout cmd = None"
    and bg: "background cmd" and ext: "prog c \<noteq> ''exit''" "prog c \<noteq> ''cd''"
    and fk: "\<not> fork_fails k (clock s)" and ex: "execvp_err k (prog c) = None"
  shows "\<exists>s1 p. RunCommand k r cmd s = (Completed, s1) \<and> procs s1 = procs s @ [p] \<and>
           p_replaced p \<and> p_pid p = next_pid s \<and> terminated s1 = terminated s \<and>
           exit_status s1 = exit_status s \<and> clock s1 = Suc (clock s)"
proof -
  let ?f0 = "first_frame k cmd STDOUT_FILENO"
  obtain fl f s1 where sb: "stage_body k c None ?f0 s = (fl, f, s1)"
    by (cases "stage_body k c None ?f0 s") auto
  let ?p = "child_branch k None (child_in ?f0) (child_out ?f0) c (next_pid s)
              (s\<lparr>clock := Suc (clock s), next_pid := next_pid s + 1\<rparr>)"
  from sb have "fl = Next \<and> procs s1 = procs s @ [?p] \<and> terminated s1 = terminated s \<and>
      exit_status s1 = exit_status s \<and> clock s1 = Suc (clock s)"
  proof (cases rule: stage_body_cases)
    case exit
    with ext show ?thesis by simp
  next
    case (cd_failed e)
    with ext show ?thesis by simp
  next
    case (cd_done d)
    with ext show ?thesis by simp
  next
    case fork_failed
    with fk show ?thesis by simp
  next
    case forked
    then show ?thesis by (simp add: parent_branch_eq)
  qed
  moreover have "p_replaced ?p"
    by (rule child_branch_facts(5) [OF refl ex, THEN conjunct1])
  moreover have "p_pid ?p = next_pid s"
    by (rule child_branch_facts(1) [OF refl])
  moreover have "RunCommand k r cmd s = (Completed, s1)"
    using sb calculation(1) bg
    by (simp add: RunCommand_def single_stage_launch [OF pg ri ro] complete_def finish_def)
  ultimately show ?thesis by blast
qed

lemma first_child_then_pipe_failure:
  assumes pg: "pgm cmd = c # c' # cs" and more_stages: "cs \<noteq> []"
    and ri: "rstdin cmd = None" and ro: "rstdout cmd = None"
    and ext: "prog c \<noteq> ''exit''" "prog c \<noteq> ''cd''"
    and p1: "\<not> pipe_fails k (clock s)" and fk: "\<not> fork_fails k (Suc (clock s))"
    and p2: "pipe_fails k (Suc (Suc (clock s)))"
  shows "\<exists>f s1 p. launch k cmd s = (Pipe_failed, f, s1) \<and> procs s1 = procs s @ [p] \<and>
           command_pids f = (malloc k (length (pgm cmd)))[0 := p_pid p] \<and>
           command_counter f = length (pgm cmd)"
proof -
  let ?f0 = "first_frame k cmd STDOUT_FILENO"
  obtain fl1 f1 s1 where st1: "stage_step k STDIN_FILENO c False ?f0 s = (fl1, f1, s1)"
    by (cases "stage_step k STDIN_FILENO c False ?f0 s") auto
  from st1 have "fl1 = Next \<and> clock s1 = Suc (Suc (clock s)) \<and>
      (\<exists>p. procs s1 = procs s @ [p] \<and> command_pids f1 = (command_pids ?f0)[0 := p_pid p]) \<and>
      command_counter f1 = command_counter ?f0"
  proof (cases rule: stage_step_cases)
    case pipe_failed
    with p1 show ?thesis by simp
  next
    case (piped pd s0 f')
    have c0: "clock s0 = Suc (clock s)" "procs s0 = procs s"
      using sys_pipe_Some(2) [OF piped(2)] by simp_all
    from piped(3) show ?thesis
    proof (cases rule: stage_body_cases)
      case exit
      with ext show ?thesis by simp
    next
      case (cd_failed e)
      with ext show ?thesis by simp
    next
      case (cd_done d)
      with ext show ?thesis by simp
    next
      case fork_failed
      with fk c0 show ?thesis by simp
    next
      case forked
      then show ?thesis
        using piped(4) c0
          child_branch_facts(1) [OF refl, of k "Some pd" "child_in (?f0\<lparr>child_in := fst pd\<rparr>)"
            "child_out (?f0\<lparr>child_in := fst pd\<rparr>)" c "next_pid s0"]
        by (simp add: parent_branch_eq first_frame_def)
    qed
  next
    case (last f')
    then show ?thesis by simp
  qed
  then obtain p where fl1: "fl1 = Next" and c1: "clock s1 = Suc (Suc (clock s))"
    and pr1: "procs s1 = procs s @ [p]"
    and cp1: "command_pids f1 = (command_pids ?f0)[0 := p_pid p]"
    and cc1: "command_counter f1 = command_counter ?f0" by blast
  obtain fl2 f2 s2 where st2: "stage_step k STDIN_FILENO c' (cs = []) f1 s1 = (fl2, f2, s2)"
    by (cases "stage_step k STDIN_FILENO c' (cs = []) f1 s1") auto
  from st2 have "fl2 = Break \<and> f2 = f1 \<and> procs s2 = procs s1"
  proof (cases rule: stage_step_cases)
    case pipe_failed
    then show ?thesis by simp
  next
    case (piped pd s0 f')
    with p2 c1 show ?thesis by (simp add: sys_pipe_def)
  next
    case (last f')
    with more_stages show ?thesis by simp
  qed
  with st1 st2 fl1 have "run_stages k STDIN_FILENO (c # c' # cs) ?f0 s = (Break, f1, s2)"
    and "procs s2 = procs s1" by simp_all
  then have "launch k cmd s = (Pipe_failed, f1, s2) \<and> procs s2 = procs s @ [p] \<and>
      command_pids f1 = (malloc k (length (pgm cmd)))[0 := p_pid p] \<and>
      command_counter f1 = length (pgm cmd)"
    using pr1 cp1 cc1
    by (simp add: launch_def open_input_def create_output_def ri ro pg first_frame_def
        CountCommands_def)
  then show ?thesis by blast
qed

lemma second_pipe_fails:
  "fst (launch kernel_pipe2 ls_sort_wc boot) = Pipe_failed \<and>
   length (spawned kernel_pipe2 1 ls_sort_wc boot) = 1 \<and>
   command_pids (fst (snd (launch kernel_pipe2 ls_sort_wc boot))) =
     map p_pid (spawned kernel_pipe2 1 ls_sort_wc boot) @ [0, 0] \<and>
   command_counter (fst (snd (launch kernel_pipe2 ls_sort_wc boot))) = 3"
proof -
  have "\<exists>f s1 p. launch kernel_pipe2 ls_sort_wc boot = (Pipe_failed, f, s1) \<and>
      procs s1 = procs boot @ [p] \<and>
      command_pids f = (malloc kernel_pipe2 (length (pgm ls_sort_wc)))[0 := p_pid p] \<and>
      command_counter f = length (pgm ls_sort_wc)"
    by (rule first_child_then_pipe_failure
          [where c = "Argv ''wc'' []" and c' = "Argv ''sort'' []" and cs = "[Argv ''ls'' []]"])
      (simp_all add: ls_sort_wc_def kernel_pipe2_def kernel_int_def kernel_ok_def boot_def)
  then obtain f s1 p where l: "launch kernel_pipe2 ls_sort_wc boot = (Pipe_failed, f, s1)"
    and pr: "procs s1 = procs boot @ [p]"
    and cp: "command_pids f = (malloc kernel_pipe2 (length (pgm ls_sort_wc)))[0 := p_pid p]"
    and cc: "command_counter f = length (pgm ls_sort_wc)" by blast
  have sp: "spawned kernel_pipe2 1 ls_sort_wc boot = [p]" by (rule spawned_eq [OF l pr])
  have n: "length (pgm ls_sort_wc) = 3" by (simp add: ls_sort_wc_def)
  have "malloc kernel_pipe2 3 = [0, 0, 0]"
    by (simp add: malloc_def kernel_pipe2_def kernel_int_def kernel_ok_def upt_conv_Cons)
  with cp cc sp show ?thesis by (simp add: l n)
qed

subsection \<open>No process for a built-in\<close>

lemma stage_body_external:
  assumes "stage_body k c pd f s = (fl, f', s')"
  shows "\<exists>ps. procs s' = procs s @ ps \<and>
           (\<forall>p\<in>set ps. p_command p = c \<and> prog c \<noteq> ''cd'' \<and> prog c \<noteq> ''exit'')"
  using assms
proof (cases rule: stage_body_cases)
  case exit
  then show ?thesis by simp
next
  case (cd_failed e)
  then show ?thesis by (simp add: handle_directory_error_def eprint_def)
next
  case (cd_done d)
  then show ?thesis by simp
next
  case fork_failed
  then show ?thesis by (simp add: parent_branch_eq)
next
  case forked
  then show ?thesis
    using child_branch_facts(2) [OF refl, of k pd "child_in f" "child_out f" c "next_pid s"]
    by (simp add: parent_branch_eq)
qed

lemma stage_step_external:
  assumes "stage_step k li c lst f s = (fl, f', s')"
  shows "\<exists>ps. procs s' = procs s @ ps \<and>
           (\<forall>p\<in>set ps. p_command p = c \<and> prog c \<noteq> ''cd'' \<and> prog c \<noteq> ''exit'')"
  using assms
proof (cases rule: stage_step_cases)
  case pipe_failed
  then show ?thesis by simp
next
  case (piped pd s1 f1)
  have "procs s1 = procs s" using sys_pipe_Some(2) [OF piped(2)] by simp
  with stage_body_external [OF piped(3)] show ?thesis by simp
next
  case (last f1)
  with stage_body_external [OF last(2)] show ?thesis by simp
qed

lemma spawned_external:
  "\<forall>p\<in>set (spawned k r cmd s).
     p_command p \<in> set (pgm cmd) \<and> prog (p_command p) \<noteq> ''cd'' \<and>
     prog (p_command p) \<noteq> ''exit''"
proof -
  obtain oc f s1 where l: "launch k cmd s = (oc, f, s1)" by (cases "launch k cmd s") auto
  show ?thesis
  proof (rule launch_spawn_inv [OF l, where I = "\<lambda>li f s. True"])
    fix li c lst f s0 fl f1 s1
    assume "c \<in> set (pgm cmd)" and "stage_step k li c lst f s0 = (fl, f1, s1)"
    with stage_step_external [of k li c lst f s0 fl f1 s1]
    show "True \<and> (\<exists>ps. procs s1 = procs s0 @ ps \<and> (\<forall>p\<in>set ps.
       p_command p \<in> set (pgm cmd) \<and> prog (p_command p) \<noteq> ''cd'' \<and>
       prog (p_command p) \<noteq> ''exit''))"
      by fastforce
  qed simp
qed

section \<open>The claims about the children\<close>

text \<open>
  Claim C5, as the specification states it, fails: the child branch does not restore the
  default disposition of the interrupt signal, it sets the signal to ignored. Both
  children of \<^verbatim>\<open>ls | grep txt\<close> are launched with the interrupt signal ignored.
\<close>

theorem child_sigint_not_default:
  "map p_sigint (spawned kernel_ok 1 ls_grep boot) = [SIG_IGN, SIG_IGN] \<and> SIG_IGN \<noteq> SIG_DFL"
proof -
  have "\<forall>p\<in>set (spawned kernel_ok 1 ls_grep boot). p_sigint p = SIG_IGN"
    using spawned_children [of kernel_ok 1 ls_grep boot] child_branch_facts(3) by blast
  from map_all_same [OF this conjunct2 [OF ls_grep_commands]] show ?thesis
    by (simp add: numeral_2_eq_2)
qed

text \<open>
  Claim C5, amended. In every forked child the interrupt signal is set to ignored before
  the descriptors are installed and the image is replaced, whatever the command, the
  state of the interpreter and the behaviour of the kernel.
\<close>

theorem child_sigint_ignored:
  "\<forall>p\<in>set (spawned k r cmd s). p_sigint p = SIG_IGN"
proof
  fix p
  assume "p \<in> set (spawned k r cmd s)"
  with spawned_children obtain pd ci co pid s0
    where "p = child_branch k pd ci co (p_command p) pid s0" by blast
  then show "p_sigint p = SIG_IGN" by (rule child_branch_facts(3))
qed

theorem child_sigint_ignored_witness:
  "map p_sigint (spawned kernel_no_exec 1 ls_grep boot) = [SIG_IGN, SIG_IGN]"
  using map_all_same [OF child_sigint_ignored ls_grep_commands_no_exec]
  by (simp add: numeral_2_eq_2)

text \<open>
  Claim C2, as the specification states it, fails in its exit status: a child whose
  \<^verbatim>\<open>execvp\<close> fails returns from \<^verbatim>\<open>handle_command\<close> and calls \<^verbatim>\<open>exit(0)\<close>. With a
  kernel that finds no executable, both children of \<^verbatim>\<open>ls | grep txt\<close> exit with
  status 0.
\<close>

theorem launch_failure_exits_zero:
  "map p_exit (spawned kernel_no_exec 1 ls_grep boot) = [Some 0, Some 0]"
proof -
  have "\<forall>p\<in>set (spawned kernel_no_exec 1 ls_grep boot). p_exit p = Some 0"
  proof
    fix p
    assume "p \<in> set (spawned kernel_no_exec 1 ls_grep boot)"
    with spawned_children obtain pd ci co pid s0
      where p: "p = child_branch kernel_no_exec pd ci co (p_command p) pid s0" by blast
    have "execvp_err kernel_no_exec (prog (p_command p)) = Some ENOENT"
      by (simp add: kernel_no_exec_def)
    from child_branch_facts(6) [OF p this] show "p_exit p = Some 0" by simp
  qed
  from map_all_same [OF this ls_grep_commands_no_exec] show ?thesis
    by (simp add: numeral_2_eq_2)
qed

text \<open>
  Claim C2, amended. For every stage whose process image cannot be replaced, the child
  writes the message for the error (executable not found, or the generic one) on
  descriptor 2, which is the object behind the error stream of the interpreter and not
  the redirected output of the pipeline, and then terminates with exit status 0. A stage
  whose image is replaced is not affected by the failure of another: it wrote nothing
  and has not exited.
\<close>

theorem launch_failure_reported_exit_zero:
  assumes "map_of (fds s) STDERR_FILENO = Some ob"
  shows "\<forall>p\<in>set (spawned k r cmd s).
           (\<forall>e. execvp_err k (prog (p_command p)) = Some e \<longrightarrow>
              p_writes p = [(Some ob, command_error_text e (prog (p_command p)))] \<and>
              p_exit p = Some 0 \<and> \<not> p_replaced p) \<and>
           (execvp_err k (prog (p_command p)) = None \<longrightarrow>
              p_replaced p \<and> p_writes p = [] \<and> p_exit p = None)"
proof
  fix p
  assume sp: "p \<in> set (spawned k r cmd s)"
  with spawned_children obtain pd ci co pid s0
    where p: "p = child_branch k pd ci co (p_command p) pid s0" by blast
  have fd2: "map_of (p_fds p) STDERR_FILENO = Some ob"
    using spawned_stderr [OF assms] sp by blast
  have failed: "\<forall>e. execvp_err k (prog (p_command p)) = Some e \<longrightarrow>
      p_writes p = [(Some ob, command_error_text e (prog (p_command p)))] \<and>
      p_exit p = Some 0 \<and> \<not> p_replaced p"
    using child_branch_facts(6) [OF p] fd2 by auto
  have replaced: "execvp_err k (prog (p_command p)) = None \<longrightarrow>
      p_replaced p \<and> p_writes p = [] \<and> p_exit p = None"
    using child_branch_facts(5) [OF p] by auto
  from failed replaced
  show "(\<forall>e. execvp_err k (prog (p_command p)) = Some e \<longrightarrow>
              p_writes p = [(Some ob, command_error_text e (prog (p_command p)))] \<and>
              p_exit p = Some 0 \<and> \<not> p_replaced p) \<and>
           (execvp_err k (prog (p_command p)) = None \<longrightarrow>
              p_replaced p \<and> p_writes p = [] \<and> p_exit p = None)"
    by (rule conjI)
qed

theorem launch_failure_reported_exit_zero_witness:
  "map p_writes (spawned kernel_no_exec 1 ls_grep boot) =
     [[(Some (Inherited 2), ''Could not find executable: grep\<newline>'')],
      [(Some (Inherited 2), ''Could not find executable: ls\<newline>'')]] \<and>
   map p_replaced (spawned kernel_no_exec 1 ls_grep boot) = [False, False]"
proof -
  obtain p1 p2 where sp: "spawned kernel_no_exec 1 ls_grep boot = [p1, p2]"
    and c1: "p_command p1 = Argv ''grep'' [''txt'']" and c2: "p_command p2 = Argv ''ls'' []"
    using ls_grep_commands_no_exec by (auto simp: map_eq_Cons_conv)
  have o: "map_of (fds boot) STDERR_FILENO = Some (Inherited 2)" by (simp add: boot_def)
  from launch_failure_reported_exit_zero [OF o, of kernel_no_exec 1 ls_grep] sp c1 c2
  show ?thesis
    by (simp add: kernel_no_exec_def command_error_text_def)
qed

section \<open>The claims about the order of the stages and about failures of the setup\<close>

text \<open>
  Claim C9, as the specification states it, fails: the loop of \<^verbatim>\<open>RunCommand\<close> walks the
  list of the parser from its head and does not reverse it. For \<^verbatim>\<open>ls | grep txt\<close> the
  list is \<^verbatim>\<open>grep\<close>, \<^verbatim>\<open>ls\<close>; \<^verbatim>\<open>grep\<close> is spawned first, whereas the pipeline order,
  which \<^verbatim>\<open>PrintPgm\<close> prints, is \<^verbatim>\<open>ls\<close>, \<^verbatim>\<open>grep\<close>.
\<close>

theorem stages_not_spawned_left_to_right:
  "map p_command (spawned kernel_ok 1 ls_grep boot) = [Argv ''grep'' [''txt''], Argv ''ls'' []] \<and>
   PrintPgm (pgm ls_grep) = [Argv ''ls'' [], Argv ''grep'' [''txt'']] \<and>
   map p_command (spawned kernel_ok 1 ls_grep boot) \<noteq> PrintPgm (pgm ls_grep)"
  using ls_grep_commands by (simp add: ls_grep_def)

text \<open>
  Claim C9, amended. When no pipe, fork or redirection fails and no stage is \<^verbatim>\<open>exit\<close>,
  the stages that are not the built-in \<^verbatim>\<open>cd\<close> are spawned in the order of the list that
  the parser delivers, which is the pipeline order from right to left: the last stage of
  the pipeline first. The list is not reversed.
\<close>

theorem stages_spawned_right_to_left:
  assumes "\<forall>t. \<not> pipe_fails k t" and "\<forall>t. \<not> fork_fails k t"
    and "\<forall>c\<in>set (pgm cmd). prog c \<noteq> ''exit''"
    and "\<forall>path. rstdin cmd = Some path \<longrightarrow> open_err k path = None"
    and "\<forall>path. rstdout cmd = Some path \<longrightarrow> creat_err k path = None"
  shows "map p_command (spawned k r cmd s) = filter (\<lambda>c. prog c \<noteq> ''cd'') (pgm cmd) \<and>
         rev (map p_command (spawned k r cmd s)) =
           filter (\<lambda>c. prog c \<noteq> ''cd'') (PrintPgm (pgm cmd))"
  using launch_commands [OF assms, of s r] by (simp add: PrintPgm_rev rev_filter)

theorem stages_spawned_right_to_left_witness:
  "map p_command (spawned kernel_no_exec 1 ls_grep boot) =
     [Argv ''grep'' [''txt''], Argv ''ls'' []] \<and>
   rev (map p_command (spawned kernel_no_exec 1 ls_grep boot)) =
     [Argv ''ls'' [], Argv ''grep'' [''txt'']]"
  using stages_spawned_right_to_left [of kernel_no_exec ls_grep 1 boot]
  by (simp add: kernel_no_exec_def kernel_ok_def ls_grep_def)

text \<open>
  Claim C3 does not hold of the code when a pipe cannot be made in a foreground
  pipeline. The loop over the stages is left with \<^verbatim>\<open>break\<close>, and the count of the
  commands stays what it was, although the cells of the array from the failed stage on
  were never written; the round for \<^verbatim>\<open>cd\<close> sets the count to zero so that no random
  process is killed, the round for a failed pipe does not. The interpreter then publishes
  the full count, installs the handler and waits for every cell. Take
  \<^verbatim>\<open>ls | sort | wc\<close> with a second pipe that cannot be made, on a heap of zeros: one
  process was spawned, the cells hold its identifier, 0 and 0. The interrupt arrives
  during the wait; the handler sends the kill signal to the child and then calls
  \<^verbatim>\<open>kill\<close> with the identifier 0, which stands for the process group of the
  interpreter itself. The interpreter is killed and never prompts again. Without an
  interrupt the interpreter can stay in the wait for ever: after \<^verbatim>\<open>sleep 100 &\<close>, with
  a first pipe that cannot be made, the cells hold 0, \<^verbatim>\<open>waitpid\<close> with the identifier
  0 waits for any child, and the background child runs on.
\<close>

theorem pipe_failure_interrupt_kills_interpreter:
  "fst (launch kernel_pipe2 ls_sort_wc boot) = Pipe_failed \<and>
   length (spawned kernel_pipe2 1 ls_sort_wc boot) = 1 \<and>
   children (waiting kernel_pipe2 ls_sort_wc boot) =
     map p_pid (spawned kernel_pipe2 1 ls_sort_wc boot) @ [0, 0] \<and>
   numChildren (waiting kernel_pipe2 ls_sort_wc boot) = 3 \<and>
   fst (RunCommand kernel_pipe2 1 ls_sort_wc boot) = Killed \<and>
   exit_status (snd (RunCommand kernel_pipe2 1 ls_sort_wc boot)) = Some 137 \<and>
   exit_status (read_eval kernel_pipe2 [Parsed 1 ls_sort_wc, Parsed 1 cd_tmp] boot) =
     Some 137 \<and>
   fst (RunCommand kernel_hang 1 ls_sort_wc (snd (RunCommand kernel_hang 1 sleep_bg boot))) =
     Blocked"
proof -
  obtain f s1 where l: "launch kernel_pipe2 ls_sort_wc boot = (Pipe_failed, f, s1)"
    using second_pipe_fails by (cases "launch kernel_pipe2 ls_sort_wc boot") auto
  note sp = second_pipe_fails
  have at: "sigint_at kernel_pipe2 (clock s1)"
    by (simp add: kernel_pipe2_def kernel_int_def)
  have "heap kernel_pipe2 (length (pgm ls_sort_wc) - 1) = 0"
    by (simp add: kernel_pipe2_def kernel_int_def kernel_ok_def)
  note dead = pipe_failure_interrupt [OF _ l _ this _ at, of 1]
  have k: "fst (RunCommand kernel_pipe2 1 ls_sort_wc boot) = Killed"
    by (rule dead(1)) (simp_all add: ls_sort_wc_def boot_def)
  have e: "exit_status (snd (RunCommand kernel_pipe2 1 ls_sort_wc boot)) = Some 137"
    by (rule dead(2)) (simp_all add: ls_sort_wc_def boot_def)
  have "exit_status (read_eval kernel_pipe2 [Parsed 1 ls_sort_wc, Parsed 1 cd_tmp] boot) =
      Some 137"
    using e by (cases "RunCommand kernel_pipe2 1 ls_sort_wc boot") simp
  moreover note sp k e
  moreover have "fst (RunCommand kernel_hang 1 ls_sort_wc
      (snd (RunCommand kernel_hang 1 sleep_bg boot))) = Blocked"
  proof -
    have "\<exists>s1 p. RunCommand kernel_hang 1 sleep_bg boot = (Completed, s1) \<and>
        procs s1 = procs boot @ [p] \<and> p_replaced p \<and> p_pid p = next_pid boot \<and>
        terminated s1 = terminated boot \<and> exit_status s1 = exit_status boot \<and>
        clock s1 = Suc (clock boot)"
      by (rule background_single [where c = "Argv ''sleep'' [''100'']"])
        (simp_all add: sleep_bg_def kernel_hang_def kernel_ok_def)
    then obtain s0 p where bg: "RunCommand kernel_hang 1 sleep_bg boot = (Completed, s0)"
      and s0: "procs s0 = [p]" "p_replaced p" "terminated s0 = []" "exit_status s0 = None"
      by (auto simp: boot_def)
    have al: "p_pid p \<in> set (alive s0)" using s0 by (simp add: alive_def)
    have "fst (RunCommand kernel_hang 1 ls_sort_wc s0) = Blocked"
      by (rule pipe_failure_blocks(1)
            [where c = "Argv ''wc'' []" and c' = "Argv ''sort'' []" and cs = "[Argv ''ls'' []]"
              and q = "p_pid p"])
        (use s0 al in \<open>simp_all add: ls_sort_wc_def kernel_hang_def kernel_ok_def\<close>)
    then show ?thesis by (simp add: bg)
  qed
  ultimately show ?thesis
    by (simp add: waiting_launch [OF l] l publish_def)
qed

text \<open>The other failures of the setup do spare the interpreter: after a failed
  redirection, and after a failed pipe in a background pipeline, \<^verbatim>\<open>RunCommand\<close> returns
  without a wait, nothing is killed, and the interpreter is as alive as it was.\<close>

lemma setup_failure_without_wait:
  assumes l: "launch k cmd s = (oc, f, s1)"
    and "oc = Input_failed \<or> oc = Output_failed \<or> oc = Pipe_failed \<and> background cmd"
  shows "RunCommand k r cmd s = (oc, s1)"
    and "exit_status s1 = exit_status s" and "killed s1 = killed s"
    and "waited s1 = waited s"
  using assms(2) launch_exit_status [OF l] launch_job [OF l]
  by (auto simp: RunCommand_launch [OF l] complete_def finish_def unchanged_job_def)

section \<open>The claims about the built-in \<^verbatim>\<open>cd\<close>\<close>

text \<open>
  Claim C6. A stage whose program name is \<^verbatim>\<open>cd\<close> is run inside the interpreter: no
  command ever spawns a process for such a stage, and the round of the loop for it
  changes the working directory of the interpreter or writes the message for the error.
  In particular the command line \<^verbatim>\<open>cd dir\<close> spawns no process. When the directory
  change succeeds, the working directory of the interpreter is the new one, and every
  process that a later command without \<^verbatim>\<open>cd\<close> spawns starts in it. When the path does
  not exist, the line \<^verbatim>\<open>No such path\<close> is written and the working directory is as
  before.
\<close>

theorem cd_runs_in_interpreter:
  assumes "pgm cmd = [Argv ''cd'' (dir # others)]" and "rstdin cmd = None"
    and "rstdout cmd = None"
  shows "(\<forall>p\<in>set (spawned k r'' cmd'' s''). prog (p_command p) \<noteq> ''cd'') \<and>
         stage_body k (Argv ''cd'' (dir # others)) pd f s =
           (Next, f\<lparr>command_counter := 0\<rparr>,
            case chdir_to k (cwd s) dir of
              Inl e \<Rightarrow> s\<lparr>stderr_out := stderr_out s @ [directory_error_text e]\<rparr>
            | Inr d \<Rightarrow> s\<lparr>cwd := d\<rparr>) \<and>
         spawned k r cmd s = [] \<and>
         (\<forall>d. chdir_to k (cwd s) dir = Inr d \<longrightarrow>
            cwd (snd (RunCommand k r cmd s)) = d \<and>
            ((\<forall>c\<in>set (pgm cmd'). prog c \<noteq> ''cd'') \<longrightarrow>
               (\<forall>p\<in>set (spawned k r' cmd' (snd (RunCommand k r cmd s))). p_cwd p = d))) \<and>
         (chdir_to k (cwd s) dir = Inl ENOENT \<longrightarrow>
            cwd (snd (RunCommand k r cmd s)) = cwd s \<and>
            stderr_out (snd (RunCommand k r cmd s)) =
              stderr_out s @ [''No such path\<newline>''])"
proof -
  have p: "prog (Argv ''cd'' (dir # others)) = ''cd''" by simp
  note run = single_cd_run [OF assms p, of k r s]
  have "\<forall>p\<in>set (spawned k r'' cmd'' s''). prog (p_command p) \<noteq> ''cd''"
    using spawned_external [of k "r''" "cmd''" "s''"] by blast
  moreover have "stage_body k (Argv ''cd'' (dir # others)) pd f s =
           (Next, f\<lparr>command_counter := 0\<rparr>,
            case chdir_to k (cwd s) dir of
              Inl e \<Rightarrow> s\<lparr>stderr_out := stderr_out s @ [directory_error_text e]\<rparr>
            | Inr d \<Rightarrow> s\<lparr>cwd := d\<rparr>)"
    by (simp add: stage_body_cd command1_def)
  moreover have "spawned k r cmd s = [] \<and>
         (\<forall>d. chdir_to k (cwd s) dir = Inr d \<longrightarrow>
            cwd (snd (RunCommand k r cmd s)) = d \<and>
            ((\<forall>c\<in>set (pgm cmd'). prog c \<noteq> ''cd'') \<longrightarrow>
               (\<forall>p\<in>set (spawned k r' cmd' (snd (RunCommand k r cmd s))). p_cwd p = d))) \<and>
         (chdir_to k (cwd s) dir = Inl ENOENT \<longrightarrow>
            cwd (snd (RunCommand k r cmd s)) = cwd s \<and>
            stderr_out (snd (RunCommand k r cmd s)) =
              stderr_out s @ [''No such path\<newline>''])"
    using run(2) run(4) run(5) spawned_cwd [of "cmd'" k "r'" "snd (RunCommand k r cmd s)"]
    by (auto simp: command1_def directory_error_text_def)
  ultimately show ?thesis by blast
qed

theorem cd_runs_in_interpreter_witness:
  "spawned kernel_ok 1 cd_tmp boot = [] \<and>
   cwd (snd (RunCommand kernel_ok 1 cd_tmp boot)) = ''/tmp'' \<and>
   map p_cwd (spawned kernel_ok 1 ls_grep (snd (RunCommand kernel_ok 1 cd_tmp boot))) =
     [''/tmp'', ''/tmp''] \<and>
   cwd (snd (RunCommand kernel_no_dir 1 cd_tmp boot)) = ''/home'' \<and>
   stderr_out (snd (RunCommand kernel_no_dir 1 cd_tmp boot)) = [''No such path\<newline>'']"
proof -
  have ok: "spawned kernel_ok 1 cd_tmp boot = [] \<and>
      cwd (snd (RunCommand kernel_ok 1 cd_tmp boot)) = ''/tmp'' \<and>
      (\<forall>p\<in>set (spawned kernel_ok 1 ls_grep (snd (RunCommand kernel_ok 1 cd_tmp boot))).
         p_cwd p = ''/tmp'')"
    using cd_runs_in_interpreter [where cmd = cd_tmp and dir = "''/tmp''" and others = "[]"
        and k = kernel_ok and r = 1 and s = boot and cmd' = ls_grep and r' = 1]
    by (simp add: cd_tmp_def kernel_ok_def ls_grep_def)
  then have "map p_cwd (spawned kernel_ok 1 ls_grep (snd (RunCommand kernel_ok 1 cd_tmp boot))) =
     [''/tmp'', ''/tmp'']"
    using map_all_same [OF _ conjunct2 [OF ls_grep_commands],
        of 1 "snd (RunCommand kernel_ok 1 cd_tmp boot)" p_cwd "''/tmp''"]
    by (simp add: numeral_2_eq_2)
  moreover have "cwd (snd (RunCommand kernel_no_dir 1 cd_tmp boot)) = ''/home'' \<and>
      stderr_out (snd (RunCommand kernel_no_dir 1 cd_tmp boot)) = [''No such path\<newline>'']"
    using cd_runs_in_interpreter [where cmd = cd_tmp and dir = "''/tmp''" and others = "[]"
        and k = kernel_no_dir and r = 1 and s = boot]
    by (simp add: cd_tmp_def kernel_no_dir_def boot_def)
  ultimately show ?thesis using ok by simp
qed

text \<open>
  Claim C10. The built-in \<^verbatim>\<open>cd\<close> without an argument: the null sentinel of the argument
  vector goes to the directory change as it is, which fails with a bad address; the
  handler of directory errors writes \<^verbatim>\<open>Invalid argument\<close>; no process is spawned, the
  working directory and the exit status of the interpreter are as before, and the
  read-eval loop goes on with the next line.
\<close>

theorem cd_without_argument:
  assumes "pgm cmd = [Argv ''cd'' []]" and "rstdin cmd = None" and "rstdout cmd = None"
  shows "command1 (Argv ''cd'' []) = None \<and>
         sys_chdir k None s = (Some EFAULT, s) \<and>
         stage_body k (Argv ''cd'' []) pd f s =
           (Next, f\<lparr>command_counter := 0\<rparr>,
            s\<lparr>stderr_out := stderr_out s @ [''Invalid argument\<newline>'']\<rparr>) \<and>
         stderr_out (snd (RunCommand k r cmd s)) =
           stderr_out s @ [''Invalid argument\<newline>''] \<and>
         spawned k r cmd s = [] \<and>
         cwd (snd (RunCommand k r cmd s)) = cwd s \<and>
         exit_status (snd (RunCommand k r cmd s)) = exit_status s \<and>
         (exit_status s = None \<longrightarrow>
            read_eval k (Parsed r cmd # rest) s =
              read_eval k rest (snd (RunCommand k r cmd s)))"
proof -
  have p: "prog (Argv ''cd'' []) = ''cd''" by simp
  note run = single_cd_run [OF assms p, of k r s]
  have "exit_status s = None \<longrightarrow>
            read_eval k (Parsed r cmd # rest) s =
              read_eval k rest (snd (RunCommand k r cmd s))"
    using run(1,3) by (cases "RunCommand k r cmd s") auto
  then show ?thesis
    using run
    by (simp add: command1_def sys_chdir_def stage_body_cd directory_error_text_def)
qed


theorem cd_without_argument_witness:
  "stderr_out (snd (RunCommand kernel_ok 1
     \<lparr>pgm = [Argv ''cd'' []], rstdin = None, rstdout = None, background = False\<rparr> boot)) =
     [''Invalid argument\<newline>''] \<and>
   spawned kernel_ok 1
     \<lparr>pgm = [Argv ''cd'' []], rstdin = None, rstdout = None, background = False\<rparr> boot = [] \<and>
   exit_status (snd (RunCommand kernel_ok 1
     \<lparr>pgm = [Argv ''cd'' []], rstdin = None, rstdout = None, background = False\<rparr> boot)) =
     None"
  using cd_without_argument [where
      cmd = "\<lparr>pgm = [Argv ''cd'' []], rstdin = None, rstdout = None, background = False\<rparr>"
      and k = kernel_ok and s = boot and r = 1 and rest = "[]"]
  by (simp add: boot_def)

section \<open>The claim about the interrupt\<close>

text \<open>
  Claim C1, as the specification states it, fails for a pipeline with the built-in
  \<^verbatim>\<open>cd\<close> among its stages. The round for \<^verbatim>\<open>cd\<close> sets the count of the commands to zero,
  so that no random process is killed. For \<^verbatim>\<open>cd /tmp | sleep 100\<close> in the foreground
  one process is spawned; the count that the interpreter publishes is zero, an interrupt
  delivered to the interpreter with the handler installed kills nothing, and the
  interpreter waits for nothing: it returns with the child running.
\<close>

theorem cd_stage_child_not_killed:
  "\<not> background cd_sleep \<and>
   fst (RunCommand kernel_int 1 cd_sleep boot) = Completed \<and>
   length (spawned kernel_int 1 cd_sleep boot) = 1 \<and>
   sigint (waiting kernel_int cd_sleep boot) = SIG_KillChildrenOnSignal \<and>
   numChildren (waiting kernel_int cd_sleep boot) = 0 \<and>
   killed (deliver_SIGINT kernel_int (waiting kernel_int cd_sleep boot)) = [] \<and>
   killed (snd (RunCommand kernel_int 1 cd_sleep boot)) = [] \<and>
   waited (snd (RunCommand kernel_int 1 cd_sleep boot)) = [] \<and>
   alive (snd (RunCommand kernel_int 1 cd_sleep boot)) =
     map p_pid (spawned kernel_int 1 cd_sleep boot)"
proof -
  note lc = launch_commands [of kernel_int cd_sleep boot 1]
  have cmds: "map p_command (spawned kernel_int 1 cd_sleep boot) = [Argv ''sleep'' [''100'']]"
    using lc by (simp add: kernel_int_def kernel_ok_def cd_sleep_def)
  have "fst (launch kernel_int cd_sleep boot) = Completed"
    using lc by (simp add: kernel_int_def kernel_ok_def cd_sleep_def)
  then obtain f s1 where l: "launch kernel_int cd_sleep boot = (Completed, f, s1)"
    by (cases "launch kernel_int cd_sleep boot") auto
  have cc: "command_counter f = 0" using launch_counter [OF l] by (simp add: cd_sleep_def)
  have fg: "\<not> background cd_sleep" by (simp add: cd_sleep_def)
  have rc: "RunCommand kernel_int 1 cd_sleep boot =
      (Completed, s1\<lparr>children := command_pids f, numChildren := 0, sigint := SIG_IGN\<rparr>)"
    by (simp add: RunCommand_launch [OF l] complete_empty [OF cc] finish_def fg)
  have j: "killed s1 = []" "waited s1 = []" "terminated s1 = []"
    using launch_job [OF l] by (simp_all add: unchanged_job_def boot_def)
  have pr: "procs s1 = spawned kernel_int 1 cd_sleep boot"
    using launch_prefix [OF l, of 1] by (simp add: boot_def)
  have "\<forall>p\<in>set (spawned kernel_int 1 cd_sleep boot). p_replaced p"
    by (rule spawned_replaced) (simp add: kernel_int_def kernel_ok_def)
  then have al: "alive (snd (RunCommand kernel_int 1 cd_sleep boot)) =
      map p_pid (spawned kernel_int 1 cd_sleep boot)"
    by (simp add: rc alive_def pr j cong: filter_cong)
  have len: "length (spawned kernel_int 1 cd_sleep boot) = 1"
    using arg_cong [OF cmds, of length] by simp
  have "kill_from 0 (publish f s1) = publish f s1"
    using cc by (subst kill_from.simps) (simp add: publish_def)
  then have "killed (deliver_SIGINT kernel_int (waiting kernel_int cd_sleep boot)) = []"
    using j by (simp add: waiting_launch [OF l] deliver_SIGINT_def KillChildrenOnSignal_def
        publish_def)
  with al len cc j fg show ?thesis
    by (simp add: rc waiting_launch [OF l] publish_def)
qed

text \<open>
  Claim C1, amended. Take a foreground pipeline none of whose stages is the built-in
  \<^verbatim>\<open>cd\<close> and whose stages were all spawned: the launch went through every stage and
  no fork failed. Its \<open>K\<close> processes are recorded, the count is \<open>K\<close> and the handler is
  installed while the interpreter waits. Let the interrupt arrive during one of the
  waits, the earlier waits having ended because their children ended. Then the handler
  sends the kill signal to the \<open>K\<close> recorded identifiers, which are the identifiers of
  the \<open>K\<close> spawned processes, and to nothing else; afterwards none of them runs, every
  wait returns, and \<^verbatim>\<open>RunCommand\<close> returns to the prompt with the interpreter alive,
  the count cleared and the interrupt signal ignored again. The state before the command
  is one in which the interpreter lives and the identifiers that the kernel hands out
  are positive and above the one of the interpreter.
\<close>

theorem interrupt_kills_recorded_children:
  assumes fg: "\<not> background cmd"
    and nocd: "\<forall>c\<in>set (pgm cmd). prog c \<noteq> ''cd''"
    and launched: "fst (launch k cmd s) = Completed"
    and forks: "\<forall>t. \<not> fork_fails k t"
    and lives: "exit_status s = None"
    and pid: "0 < next_pid s" and own: "own_pid s < next_pid s"
    and j: "j < length (pgm cmd)"
    and at: "sigint_at k (clock (waiting k cmd s) + j)"
    and fins: "\<forall>m<j. finishes k (p_pid (spawned k r cmd s ! m))"
  shows "length (spawned k r cmd s) = length (pgm cmd) \<and>
         sigint (waiting k cmd s) = SIG_KillChildrenOnSignal \<and>
         numChildren (waiting k cmd s) = length (pgm cmd) \<and>
         children (waiting k cmd s) = map p_pid (spawned k r cmd s) \<and>
         fst (RunCommand k r cmd s) = Completed \<and>
         exit_status (snd (RunCommand k r cmd s)) = None \<and>
         take (length (pgm cmd))
           (drop (length (killed s)) (killed (snd (RunCommand k r cmd s)))) =
           map p_pid (spawned k r cmd s) \<and>
         set (drop (length (killed s)) (killed (snd (RunCommand k r cmd s)))) =
           p_pid ` set (spawned k r cmd s) \<and>
         (\<forall>p\<in>set (spawned k r cmd s). p_pid p \<notin> set (alive (snd (RunCommand k r cmd s)))) \<and>
         waited (snd (RunCommand k r cmd s)) = waited s @ map p_pid (spawned k r cmd s) \<and>
         numChildren (snd (RunCommand k r cmd s)) = 0 \<and>
         sigint (snd (RunCommand k r cmd s)) = SIG_IGN"
proof -
  from launched obtain f s1 where l: "launch k cmd s = (Completed, f, s1)"
    by (cases "launch k cmd s") auto
  note fa = foreground_armed [OF l nocd forks lives pid own]
  note pids = fa(2) [where r = r] and cc = fa(3) and len = fa(4) [where r = r]
  note wl = waiting_launch [OF l]
  have j': "j < command_counter f" using j cc by simp
  have at': "sigint_at k (clock s1 + j)" using at wl(5) by simp
  have fins': "\<forall>m<j. finishes k (command_pids f ! m)"
    using fins j pids len by simp
  from foreground_interrupt [OF fg l fa(1) j' at' fins', of r] obtain s' ks
    where rc: "RunCommand k r cmd s = (Completed, s')" and e: "exit_status s' = None"
      and dead: "set (command_pids f) \<subseteq> set (terminated s')"
      and kl: "killed s' = killed s @ command_pids f @ ks"
      and ks: "set ks \<subseteq> set (command_pids f)"
      and wt: "waited s' = waited s @ command_pids f"
      and un: "numChildren s' = 0" "sigint s' = SIG_IGN"
    by blast
  have lp: "length (command_pids f) = length (pgm cmd)" using pids len by simp
  have tk: "take (length (pgm cmd)) (drop (length (killed s)) (killed s')) = command_pids f"
    using kl lp by simp
  have st: "set (drop (length (killed s)) (killed s')) = set (command_pids f)"
    using kl ks by auto
  have "\<forall>p\<in>set (spawned k r cmd s). p_pid p \<notin> set (alive s')"
  proof
    fix p assume "p \<in> set (spawned k r cmd s)"
    then have "p_pid p \<in> set (command_pids f)" by (simp add: pids)
    with dead show "p_pid p \<notin> set (alive s')" by (intro not_alive) blast
  qed
  with tk st wt un e pids cc len wl show ?thesis by (simp add: rc)
qed

theorem interrupt_kills_recorded_children_witness:
  "length (spawned kernel_int 1 ls_grep boot) = 2 \<and>
   fst (RunCommand kernel_int 1 ls_grep boot) = Completed \<and>
   exit_status (snd (RunCommand kernel_int 1 ls_grep boot)) = None \<and>
   take 2 (killed (snd (RunCommand kernel_int 1 ls_grep boot))) =
     map p_pid (spawned kernel_int 1 ls_grep boot) \<and>
   waited (snd (RunCommand kernel_int 1 ls_grep boot)) =
     map p_pid (spawned kernel_int 1 ls_grep boot) \<and>
   sigint (snd (RunCommand kernel_int 1 ls_grep boot)) = SIG_IGN"
proof -
  have l: "fst (launch kernel_int ls_grep boot) = Completed"
    using launch_commands [of kernel_int ls_grep boot 1]
    by (simp add: kernel_int_def kernel_ok_def ls_grep_def)
  have at: "sigint_at kernel_int (clock (waiting kernel_int ls_grep boot) + 1)"
    by (simp add: kernel_int_def)
  have fg: "\<not> background ls_grep" and nocd: "\<forall>c\<in>set (pgm ls_grep). prog c \<noteq> ''cd''"
    and n: "length (pgm ls_grep) = 2" by (simp_all add: ls_grep_def)
  have forks: "\<forall>t. \<not> fork_fails kernel_int t" by (simp add: kernel_int_def kernel_ok_def)
  have b: "exit_status boot = None" "0 < next_pid boot" "own_pid boot < next_pid boot"
    "killed boot = []" "waited boot = []" by (simp_all add: boot_def)
  have j: "1 < length (pgm ls_grep)" using n by simp
  have fins: "\<forall>m<1. finishes kernel_int (p_pid (spawned kernel_int 1 ls_grep boot ! m))"
    by (simp add: kernel_int_def kernel_ok_def)
  from interrupt_kills_recorded_children [OF fg nocd l forks b(1,2,3) j at fins]
  show ?thesis by (simp add: n b)
qed

section \<open>The earlier revision\<close>

text \<open>
  The earlier revision of the shell, kept in \<^verbatim>\<open>lsh.c\<close>, does not have the properties
  above where the final revision changed the code. Its handler sends the kill signal to
  two cells of the array, whatever the number of children. A pipe that cannot be made
  ends the interpreter with \<^verbatim>\<open>exit(-1)\<close>. A failure to create the output leaves the
  input descriptor open. \<^verbatim>\<open>cd\<close> runs in a forked child, so that the directory of the
  interpreter does not change. A child that cannot execute its program reports on its
  standard output, which is the redirected output of the pipeline, and keeps the
  disposition of the interrupt signal that the interpreter had at the fork.
\<close>

lemma KillChildren_misses_third:
  assumes "children s = [a, b, c]" and "c \<noteq> a" and "c \<noteq> b"
    and "exit_status s = None" and "0 < a" and "a \<noteq> own_pid s"
    and "0 < b" and "b \<noteq> own_pid s"
  shows "killed (KillChildren k status s) = killed s @ [a, b]"
    and "c \<notin> set (drop (length (killed s)) (killed (KillChildren k status s)))"
proof -
  show "killed (KillChildren k status s) = killed s @ [a, b]"
    using assms
    by (simp add: KillChildren_def pids_per_pointer_def Let_def oprint_def children_at_def
        kill_upto.simps [of k 2 0] kill_upto.simps [of k 2 "Suc 0"]
        kill_upto.simps [of k 2 "Suc (Suc 0)"] sys_kill_safe)
  with assms(2,3) show
    "c \<notin> set (drop (length (killed s)) (killed (KillChildren k status s)))" by simp
qed

lemma complete_early_keeps:
  shows "cwd (complete_early k cmd f s) = cwd s"
    and "procs (complete_early k cmd f s) = procs s"
proof -
  have "cwd (complete_early k cmd f s) = cwd s \<and> procs (complete_early k cmd f s) = procs s"
  proof (cases "background cmd")
    case True
    then show ?thesis by (simp add: complete_early_def)
  next
    case False
    obtain b s1 where w: "wait_from k 0 f (publish_early f s) = (b, s1)"
      by (cases "wait_from k 0 f (publish_early f s)") auto
    from wait_from_keeps [OF w] False w show ?thesis
      by (cases b) (simp_all add: complete_early_def wait_keeps_def publish_early_def)
  qed
  then show "cwd (complete_early k cmd f s) = cwd s"
    and "procs (complete_early k cmd f s) = procs s" by simp_all
qed

lemma early_pipe_failure_exits:
  assumes "rstdin cmd = None" and "rstdout cmd = None"
    and "pgm cmd = c # c' # cs" and "pipe_fails k (clock s)"
  shows "exit_status (RunCommand_early k r cmd s) = Some (- 1)"
  using assms
  by (simp add: RunCommand_early_def open_input_def create_output_def stage_step_early_def
      sys_pipe_def oprint_def)

lemma early_output_failure_leaks:
  assumes "rstdin cmd = Some inp" and "open_err k inp = None"
    and "rstdout cmd = Some outp" and "creat_err k outp = Some e"
  shows "fds (RunCommand_early k r cmd s) = (fd_lowest (fds s), File_read inp) # fds s"
  using assms
  by (simp add: RunCommand_early_def open_input_def create_output_def sys_open_def
      sys_creat_def handle_file_error_early_def oprint_def Let_def)

lemma early_cd_in_child:
  assumes "pgm cmd = [Argv ''cd'' (dir # others)]" and "rstdin cmd = None"
    and "rstdout cmd = None" and "\<not> fork_fails k (clock s)"
    and "chdir_to k (cwd s) dir = Inr d"
  shows "cwd (RunCommand_early k r cmd s) = cwd s"
    and "map p_cwd (drop (length (procs s)) (procs (RunCommand_early k r cmd s))) = [d]"
  using assms
  by (simp_all add: RunCommand_early_def open_input_def create_output_def
      stage_step_early_def stage_body_early_def sys_fork_def parent_branch_eq
      child_branch_early_def handle_command_early_def child_exit_def command1_def
      complete_early_keeps Let_def)

lemma early_child_reports_on_stdout:
  assumes "pgm cmd = [c]" and "prog c \<noteq> ''exit''" and "prog c \<noteq> ''cd''"
    and "rstdin cmd = None" and "rstdout cmd = Some outp" and "creat_err k outp = None"
    and "\<not> fork_fails k (clock s)" and "execvp_err k (prog c) = Some e"
    and "STDOUT_FILENO \<in> set (fd_keys (fds s))"
  shows "map p_writes (drop (length (procs s)) (procs (RunCommand_early k r cmd s))) =
           [[(Some (File_write outp), command_error_text e (prog c))]]"
    and "map p_exit (drop (length (procs s)) (procs (RunCommand_early k r cmd s))) = [Some 0]"
    and "map p_sigint (drop (length (procs s)) (procs (RunCommand_early k r cmd s))) =
           [sigint s]"
proof -
  have n1: "fd_lowest (fds s) \<noteq> Suc 0"
    using assms(9) fd_lowest_fresh [of "fds s"] by (metis One_nat_def)
  show "map p_writes (drop (length (procs s)) (procs (RunCommand_early k r cmd s))) =
           [[(Some (File_write outp), command_error_text e (prog c))]]"
    and "map p_exit (drop (length (procs s)) (procs (RunCommand_early k r cmd s))) = [Some 0]"
    and "map p_sigint (drop (length (procs s)) (procs (RunCommand_early k r cmd s))) =
           [sigint s]"
    using assms(1-8) n1
    by (simp_all add: RunCommand_early_def open_input_def create_output_def sys_creat_def
      stage_step_early_def stage_body_early_def sys_fork_def parent_branch_eq
      child_branch_early_def handle_command_early_def child_exit_def child_printf_def
      complete_early_keeps Let_def first_frame_def
      fd_dup2_def fd_close_def map_of_fd_close split: option.splits)
qed

end
